theory Spec2Isabelle
  imports Complex_Main "HOL-Library.Sublist"
begin

section \<open>Internal link engine (SOTAInternalLinkEngine.ts, v3.0.0)\<close>

text \<open>
  The model follows version 3.0.0 of the engine: the helpers \<open>stem\<close>, \<open>significantTokens\<close>,
  \<open>extractParagraphs\<close> and \<open>findBestAnchor\<close>, and the class with the methods
  \<open>generateLinkOpportunities\<close> and \<open>injectContextualLinks\<close>.

  Strings are lists of characters, and the model is that of the engine on ASCII text.
  A character outside ASCII is carried along as an opaque symbol: it is not white space,
  not a letter and has no other case. The host language treats some of them otherwise:
  its white space takes in U+00A0, U+FEFF and the Unicode separators, its lower-casing
  and its case-blind matching also fold letters outside ASCII, and lower-casing U+0130
  yields two code units, which moves every later position. The general properties
  below either hold whatever these character classes are, or say so when they are
  about ASCII text. Numbers that the source keeps as
  counts and offsets are naturals; the limit \<open>maxLinks\<close> is an integer or missing; scores
  are exact rationals where the source computes with floating-point numbers: the
  general properties below hold whatever the scores are, and the winning scores of the
  evaluated examples are whole numbers.

  Each regular expression of the source is a function here that returns what the
  expression matches first: where the match starts and how long its parts are.
\<close>

subsection \<open>Characters and the string primitives of the host language\<close>

definition isSpace :: "char \<Rightarrow> bool" where
  \<comment> \<open>the class \<open>\s\<close>: tab, line feed, vertical tab, form feed, carriage return, space\<close>
  "isSpace c \<longleftrightarrow> (of_char c :: nat) \<in> {9, 10, 11, 12, 13, 32}"

definition isLower :: "char \<Rightarrow> bool" where
  "isLower c \<longleftrightarrow> 97 \<le> (of_char c :: nat) \<and> (of_char c :: nat) \<le> 122"

definition isUpper :: "char \<Rightarrow> bool" where
  "isUpper c \<longleftrightarrow> 65 \<le> (of_char c :: nat) \<and> (of_char c :: nat) \<le> 90"

definition isDigit :: "char \<Rightarrow> bool" where
  "isDigit c \<longleftrightarrow> 48 \<le> (of_char c :: nat) \<and> (of_char c :: nat) \<le> 57"

definition isWordChar :: "char \<Rightarrow> bool" where
  \<comment> \<open>the class \<open>\w\<close> that decides \<open>\b\<close>\<close>
  "isWordChar c \<longleftrightarrow> isLower c \<or> isUpper c \<or> isDigit c \<or> c = CHR ''_''"

definition lowerChar :: "char \<Rightarrow> char" where
  "lowerChar c = (if isUpper c then char_of ((of_char c :: nat) + 32) else c)"

text \<open>The same classes read off the bits of an ASCII code, for evaluation.\<close>

lemma isSpace_bits [code]:
  "isSpace (Char b0 b1 b2 b3 b4 b5 b6 b7) =
     (\<not> b7 \<and> \<not> b6 \<and> \<not> b4 \<and>
      (if b5 then \<not> b3 \<and> \<not> b2 \<and> \<not> b1 \<and> \<not> b0
       else b3 \<and> (if b2 then \<not> b1 else (b1 \<or> b0))))"
  by (cases b0; cases b1; cases b2; cases b3; cases b4; cases b5; cases b6; cases b7;
      simp add: isSpace_def)

lemma isLower_bits [code]:
  "isLower (Char b0 b1 b2 b3 b4 b5 b6 b7) =
     (\<not> b7 \<and> b6 \<and> b5 \<and> (b0 \<or> b1 \<or> b2 \<or> b3 \<or> b4)
      \<and> \<not> (b4 \<and> b3 \<and> (b2 \<or> (b1 \<and> b0))))"
  by (cases b0; cases b1; cases b2; cases b3; cases b4; cases b5; cases b6; cases b7;
      simp add: isLower_def)

lemma isUpper_bits [code]:
  "isUpper (Char b0 b1 b2 b3 b4 b5 b6 b7) =
     (\<not> b7 \<and> b6 \<and> \<not> b5 \<and> (b0 \<or> b1 \<or> b2 \<or> b3 \<or> b4)
      \<and> \<not> (b4 \<and> b3 \<and> (b2 \<or> (b1 \<and> b0))))"
  by (cases b0; cases b1; cases b2; cases b3; cases b4; cases b5; cases b6; cases b7;
      simp add: isUpper_def)

lemma isDigit_bits [code]:
  "isDigit (Char b0 b1 b2 b3 b4 b5 b6 b7) =
     (\<not> b7 \<and> \<not> b6 \<and> b5 \<and> b4 \<and> \<not> (b3 \<and> (b2 \<or> b1)))"
  by (cases b0; cases b1; cases b2; cases b3; cases b4; cases b5; cases b6; cases b7;
      simp add: isDigit_def)

lemma lowerChar_bits [code]:
  "lowerChar (Char b0 b1 b2 b3 b4 b5 b6 b7) =
     (if isUpper (Char b0 b1 b2 b3 b4 b5 b6 b7) then Char b0 b1 b2 b3 b4 True b6 b7
      else Char b0 b1 b2 b3 b4 b5 b6 b7)"
  by (cases b0; cases b1; cases b2; cases b3; cases b4; cases b5; cases b6; cases b7;
      simp add: lowerChar_def isUpper_def char_of_def bit_iff_odd)

definition toLowerCase :: "string \<Rightarrow> string" where
  "toLowerCase s = map lowerChar s"

definition eqIgnoreCase :: "char \<Rightarrow> char \<Rightarrow> bool" where
  \<comment> \<open>two characters a regular expression with the \<open>i\<close> flag takes for the same\<close>
  "eqIgnoreCase a b \<longleftrightarrow> lowerChar a = lowerChar b"

fun startsWithCI :: "string \<Rightarrow> string \<Rightarrow> bool" where
  \<comment> \<open>\<open>startsWithCI pat s\<close>: \<open>s\<close> begins with \<open>pat\<close>, letters compared without case\<close>
  "startsWithCI [] s = True"
| "startsWithCI (p # ps) [] = False"
| "startsWithCI (p # ps) (c # cs) = (eqIgnoreCase p c \<and> startsWithCI ps cs)"

fun startsWith :: "string \<Rightarrow> string \<Rightarrow> bool" where
  "startsWith [] s = True"
| "startsWith (p # ps) [] = False"
| "startsWith (p # ps) (c # cs) = (p = c \<and> startsWith ps cs)"

definition endsWith :: "string \<Rightarrow> string \<Rightarrow> bool" where
  \<comment> \<open>\<open>endsWith suf s\<close> is \<open>s.endsWith(suf)\<close>\<close>
  "endsWith suf s \<longleftrightarrow> length suf \<le> length s \<and> drop (length s - length suf) s = suf"

definition dropEnd :: "nat \<Rightarrow> string \<Rightarrow> string" where
  \<comment> \<open>\<open>s.slice(0, -n)\<close> for \<open>0 < n\<close>\<close>
  "dropEnd n s = take (length s - n) s"

definition trim :: "string \<Rightarrow> string" where
  "trim s = rev (dropWhile isSpace (rev (dropWhile isSpace s)))"

function splitWs :: "string \<Rightarrow> string list" where
  \<comment> \<open>\<open>s.split(/\s+/)\<close>: a leading or trailing run of white space leaves an empty piece\<close>
  "splitWs [] = [[]]"
| "splitWs (c # cs) =
     (if isSpace c then [] # splitWs (dropWhile isSpace cs)
      else (case splitWs cs of [] \<Rightarrow> [[c]] | w # ws \<Rightarrow> (c # w) # ws))"
  by pat_completeness auto
termination
  by (relation "measure length") (auto simp: less_Suc_eq_le length_dropWhile_le)

fun joinSp :: "string list \<Rightarrow> string" where
  \<comment> \<open>\<open>ws.join(' ')\<close>\<close>
  "joinSp [] = []"
| "joinSp [w] = w"
| "joinSp (w # v # ws) = w @ CHR '' '' # joinSp (v # ws)"

fun indexOf :: "string \<Rightarrow> string \<Rightarrow> nat option" where
  \<comment> \<open>\<open>s.indexOf(pat)\<close>, with \<open>None\<close> for \<open>-1\<close>\<close>
  "indexOf pat [] = (if pat = [] then Some 0 else None)"
| "indexOf pat (c # cs) =
     (if startsWith pat (c # cs) then Some 0 else map_option Suc (indexOf pat cs))"

definition substring :: "string \<Rightarrow> nat \<Rightarrow> nat \<Rightarrow> string" where
  \<comment> \<open>\<open>s.substring(a, b)\<close> for \<open>a \<le> b\<close>\<close>
  "substring s a b = take (b - a) (drop a s)"


text \<open>Taking and dropping by pattern matching, for evaluation.\<close>

lemma drop_pattern [code]:
  "drop 0 xs = xs" "drop (Suc n) [] = []" "drop (Suc n) (x # xs) = drop n xs"
  by simp_all

lemma take_pattern [code]:
  "take 0 xs = []" "take (Suc n) [] = []" "take (Suc n) (x # xs) = x # take n xs"
  by simp_all

fun indexOfCI :: "string \<Rightarrow> string \<Rightarrow> nat option" where
  \<comment> \<open>first position at which \<open>pat\<close> occurs, letters compared without case\<close>
  "indexOfCI pat [] = (if pat = [] then Some 0 else None)"
| "indexOfCI pat (c # cs) =
     (if startsWithCI pat (c # cs) then Some 0 else map_option Suc (indexOfCI pat cs))"

subsection \<open>Stop words, stems and significant tokens\<close>

definition STOP :: "string list" where
  "STOP =
   [''a'', ''an'', ''the'', ''and'', ''or'', ''but'', ''in'', ''on'', ''at'', ''to'', ''for'', ''of'', ''with'', ''by'',
    ''from'', ''as'', ''is'', ''was'', ''are'', ''were'', ''be'', ''have'', ''has'', ''had'', ''do'', ''does'', ''did'',
    ''will'', ''would'', ''could'', ''should'', ''may'', ''might'', ''can'', ''this'', ''that'', ''these'',
    ''those'', ''i'', ''me'', ''my'', ''we'', ''our'', ''you'', ''your'', ''he'', ''him'', ''his'', ''she'', ''her'',
    ''it'', ''its'', ''they'', ''them'', ''their'', ''what'', ''which'', ''who'', ''how'', ''when'', ''where'',
    ''why'', ''not'', ''no'', ''so'', ''if'', ''than'', ''too'', ''very'', ''just'', ''about'', ''all'', ''also'',
    ''any'', ''been'', ''being'', ''both'', ''each'', ''few'', ''more'', ''most'', ''other'', ''some'', ''such'',
    ''into'', ''out'', ''up'', ''down'', ''new'', ''way'', ''much'', ''even'', ''only'', ''own'', ''here'', ''there'']"

definition isStop :: "string \<Rightarrow> bool" where
  \<comment> \<open>\<open>STOP.has(w)\<close>\<close>
  "isStop w \<longleftrightarrow> w \<in> set STOP"

definition lettersOnly :: "string \<Rightarrow> string" where
  \<comment> \<open>\<open>w.toLowerCase().replace(/[^a-z]/g, '')\<close>\<close>
  "lettersOnly w = filter isLower (toLowerCase w)"

definition stem :: "string \<Rightarrow> string" where
  "stem word =
     (let w = lettersOnly word in
      if length w \<le> 3 then w
      else if endsWith ''ing'' w \<and> length w > 5 then dropEnd 3 w
      else if endsWith ''tion'' w \<and> length w > 6 then dropEnd 4 w
      else if endsWith ''ness'' w \<and> length w > 6 then dropEnd 4 w
      else if endsWith ''ment'' w \<and> length w > 6 then dropEnd 4 w
      else if endsWith ''able'' w \<and> length w > 6 then dropEnd 4 w
      else if endsWith ''ies'' w \<and> length w > 4 then dropEnd 3 w @ ''y''
      else if endsWith ''es'' w \<and> length w > 4 then dropEnd 2 w
      else if endsWith ''ed'' w \<and> length w > 4 then dropEnd 2 w
      else if endsWith ''s'' w \<and> \<not> endsWith ''ss'' w \<and> length w > 3 then dropEnd 1 w
      else if endsWith ''ly'' w \<and> length w > 4 then dropEnd 2 w
      else w)"

definition keptLower :: "char \<Rightarrow> bool" where
  \<comment> \<open>the characters that \<open>/[^a-z0-9\s'-]/g\<close> leaves alone\<close>
  "keptLower c \<longleftrightarrow> isLower c \<or> isDigit c \<or> isSpace c \<or> c = CHR 0x27 \<or> c = CHR ''-''"

definition keptAnyCase :: "char \<Rightarrow> bool" where
  \<comment> \<open>the same class under the \<open>i\<close> flag\<close>
  "keptAnyCase c \<longleftrightarrow> keptLower c \<or> isUpper c"

definition blankUnless :: "(char \<Rightarrow> bool) \<Rightarrow> string \<Rightarrow> string" where
  \<comment> \<open>\<open>s.replace(/[^...]/g, ' ')\<close>\<close>
  "blankUnless keep s = map (\<lambda>c. if keep c then c else CHR '' '') s"

definition significantTokens :: "string \<Rightarrow> string list" where
  "significantTokens tx =
     map stem (filter (\<lambda>w. length w > 2 \<and> \<not> isStop w)
       (splitWs (blankUnless keptLower (toLowerCase tx))))"

subsection \<open>Paragraph extraction\<close>

record ParagraphInfo =
  html :: string
  text_p :: string
  index :: nat
  wordCount :: nat
  cumulativeWords :: nat
  hasLink :: bool
  startOffset :: nat
  endOffset :: nat

function stripTags :: "string \<Rightarrow> string" where
  \<comment> \<open>\<open>s.replace(/<[^>]*>/g, '')\<close>: a \<open><\<close> with no \<open>>\<close> after it stays\<close>
  "stripTags [] = []"
| "stripTags (c # cs) =
     (if c = CHR ''<'' then
        (if CHR ''>'' \<in> set cs then stripTags (tl (dropWhile (\<lambda>d. d \<noteq> CHR ''>'') cs))
         else c # stripTags cs)
      else c # stripTags cs)"
  by pat_completeness auto
termination
proof (relation "measure length")
  fix c :: char and cs :: string
  have "length (tl (dropWhile (\<lambda>d. d \<noteq> CHR ''>'') cs)) \<le> length cs"
    using length_dropWhile_le [of "\<lambda>d. d \<noteq> CHR ''>''" cs] by simp
  then show "(tl (dropWhile (\<lambda>d. d \<noteq> CHR ''>'') cs), c # cs) \<in> measure length"
    by simp
qed simp_all

fun hasLinkMarkup :: "string \<Rightarrow> bool" where
  \<comment> \<open>\<open>/<a\s/i.test(s)\<close>\<close>
  "hasLinkMarkup (a # b # c # cs) =
     ((a = CHR ''<'' \<and> eqIgnoreCase b CHR ''a'' \<and> isSpace c) \<or> hasLinkMarkup (b # c # cs))"
| "hasLinkMarkup cs = False"

definition matchP :: "string \<Rightarrow> nat option" where
  \<comment> \<open>\<open>/<p[^>]*>([\s\S]*?)<\/p>/i\<close> tried at the head of \<open>s\<close>: the length of the match.
      The tag runs to the first \<open>>\<close>, the body to the first \<open></p>\<close> after the tag.\<close>
  "matchP s =
     (if startsWithCI ''<p'' s then
        (case indexOf ''>'' (drop 2 s) of
           None \<Rightarrow> None
         | Some a \<Rightarrow>
             (case indexOfCI ''</p>'' (drop (2 + a + 1) s) of
                None \<Rightarrow> None
              | Some b \<Rightarrow> Some (2 + a + 1 + b + 4)))
      else None)"

fun execP :: "string \<Rightarrow> (nat \<times> nat) option" where
  \<comment> \<open>the leftmost match: how many characters are skipped before it, and its length\<close>
  "execP [] = None"
| "execP (c # cs) =
     (case matchP (c # cs) of
        Some n \<Rightarrow> Some (0, n)
      | None \<Rightarrow> map_option (\<lambda>(k, n). (Suc k, n)) (execP cs))"

definition countWords :: "string \<Rightarrow> nat" where
  \<comment> \<open>\<open>text.split(/\s+/).filter(Boolean).length\<close>\<close>
  "countWords tx = length (filter (\<lambda>w. w \<noteq> []) (splitWs tx))"

lemma indexOf_bound: "indexOf pat s = Some k \<Longrightarrow> k + length pat \<le> length s"
proof (induction s arbitrary: k)
  case Nil
  then show ?case by (simp split: if_splits)
next
  case (Cons c cs)
  have sw: "\<And>p t. startsWith p t \<Longrightarrow> length p \<le> length t"
  proof -
    fix p t show "startsWith p t \<Longrightarrow> length p \<le> length t"
      by (induction p t rule: startsWith.induct) auto
  qed
  show ?case
  proof (cases "startsWith pat (c # cs)")
    case True
    with Cons.prems sw [of pat "c # cs"] show ?thesis by simp
  next
    case False
    with Cons.prems obtain j where "indexOf pat cs = Some j" "k = Suc j" by auto
    with Cons.IH [of j] show ?thesis by simp
  qed
qed

lemma indexOfCI_bound: "indexOfCI pat s = Some k \<Longrightarrow> k + length pat \<le> length s"
proof (induction s arbitrary: k)
  case Nil
  then show ?case by (simp split: if_splits)
next
  case (Cons c cs)
  have sw: "\<And>p t. startsWithCI p t \<Longrightarrow> length p \<le> length t"
  proof -
    fix p t show "startsWithCI p t \<Longrightarrow> length p \<le> length t"
      by (induction p t rule: startsWithCI.induct) auto
  qed
  show ?case
  proof (cases "startsWithCI pat (c # cs)")
    case True
    with Cons.prems sw [of pat "c # cs"] show ?thesis by simp
  next
    case False
    with Cons.prems obtain j where "indexOfCI pat cs = Some j" "k = Suc j" by auto
    with Cons.IH [of j] show ?thesis by simp
  qed
qed

lemma matchP_bound: "matchP s = Some n \<Longrightarrow> 0 < n \<and> n \<le> length s"
proof -
  assume m: "matchP s = Some n"
  then obtain a b where a: "indexOf ''>'' (drop 2 s) = Some a"
    and b: "indexOfCI ''</p>'' (drop (2 + a + 1) s) = Some b"
    and n: "n = 2 + a + 1 + b + 4"
    by (auto simp: matchP_def split: if_splits option.splits)
  from indexOfCI_bound [OF b] have "b + 4 \<le> length s - (2 + a + 1)" by simp
  with n show ?thesis by simp
qed

lemma execP_bound: "execP s = Some (k, n) \<Longrightarrow> 0 < n \<and> k + n \<le> length s"
proof (induction s arbitrary: k)
  case Nil
  then show ?case by simp
next
  case (Cons c cs)
  show ?case
  proof (cases "matchP (c # cs)")
    case (Some m)
    with Cons.prems matchP_bound [OF Some] show ?thesis by simp
  next
    case None
    with Cons.prems obtain j where "execP cs = Some (j, n)" "k = Suc j" by auto
    with Cons.IH [of j] show ?thesis by simp
  qed
qed

function extractFrom :: "nat \<Rightarrow> nat \<Rightarrow> nat \<Rightarrow> string \<Rightarrow> ParagraphInfo list" where
  \<comment> \<open>the \<open>while ((m = re.exec(html)) !== null)\<close> loop; \<open>off\<close> is \<open>re.lastIndex\<close>, \<open>s\<close> the
      part of the document from there on\<close>
  "extractFrom off idx cumWords s =
     (case execP s of
        None \<Rightarrow> []
      | Some (k, n) \<Rightarrow>
          (let m0 = take n (drop k s);
               tx = trim (stripTags m0);
               wc = countWords tx
           in \<lparr> html = m0, text_p = tx, index = idx, wordCount = wc,
                cumulativeWords = cumWords + wc, hasLink = hasLinkMarkup m0,
                startOffset = off + k, endOffset = off + k + n \<rparr>
              # extractFrom (off + k + n) (Suc idx) (cumWords + wc) (drop (k + n) s)))"
  by pat_completeness auto
termination
proof (relation "measure (\<lambda>(off, idx, cumWords, s). length s)")
  fix off idx cumWords :: nat and s :: string and x2 :: "nat \<times> nat" and k n :: nat
    and m0 tx :: string and wc :: nat
  assume "execP s = Some x2" "(k, n) = x2"
  then have "execP s = Some (k, n)" by simp
  from execP_bound [OF this]
  show "((off + k + n, Suc idx, cumWords + wc, drop (k + n) s), off, idx, cumWords, s)
        \<in> measure (\<lambda>(off, idx, cumWords, s). length s)"
    by auto
qed simp

definition extractParagraphs :: "string \<Rightarrow> ParagraphInfo list" where
  "extractParagraphs h = extractFrom 0 0 0 h"


subsection \<open>The anchor generator\<close>

text \<open>
  A site page carries further optional fields (slug, description, content) that the
  engine never reads. A missing keyword list and an empty one are treated alike by
  the source (\<open>page.keywords || []\<close>), so the list alone stands for both.
\<close>

record SitePage =
  url :: string
  title :: string
  keywords_p :: "string list"

type_synonym best = "(string \<times> rat) option"

definition better :: "best \<Rightarrow> string \<times> rat \<Rightarrow> best" where
  \<comment> \<open>\<open>if (!best || score > best.score) best = { anchor, score }\<close>\<close>
  "better b cand =
     (case b of None \<Rightarrow> Some cand
      | Some old \<Rightarrow> if snd cand > snd old then Some cand else Some old)"

definition windowScore ::
  "string list \<Rightarrow> string list \<Rightarrow> string list \<Rightarrow> nat \<Rightarrow> nat \<Rightarrow> (string \<times> rat) option" where
  \<comment> \<open>the body of the inner window loop; \<open>None\<close> is \<open>continue\<close>\<close>
  "windowScore titleStems allTargetStems words len i =
     (let phrase = joinSp (take len (drop i words));
          cleaned = trim (blankUnless keptAnyCase phrase)
      in if length cleaned < 8 then None
         else
           (let phraseStems = significantTokens cleaned
            in if phraseStems = [] then None
               else
                 (let firstWord = lettersOnly (words ! i);
                      lastWord = lettersOnly (words ! (i + len - 1))
                  in if isStop firstWord \<or> isStop lastWord then None
                     else
                       (let overlap = length (filter (\<lambda>s. s \<in> set allTargetStems) phraseStems)
                        in if overlap = 0 then None
                           else
                             (let overlapRatio = of_nat overlap / of_nat (length phraseStems);
                                  titleOverlap =
                                    length (filter (\<lambda>s. s \<in> set titleStems) phraseStems);
                                  lengthBonus =
                                    (if 4 \<le> len \<and> len \<le> 6 then 8 else if len = 3 then 2 else 0);
                                  titleBonus = of_nat titleOverlap * 5
                              in Some (phrase,
                                   overlapRatio * 40 + of_nat overlap * 8 + lengthBonus
                                   + titleBonus))))))"

definition windowPositions :: "nat \<Rightarrow> (nat \<times> nat) list" where
  \<comment> \<open>\<open>for (len = 3; len <= min(7, n); len++) for (i = 0; i <= n - len; i++)\<close>\<close>
  "windowPositions n =
     concat (map (\<lambda>len. map (\<lambda>i. (len, i)) [0 ..< Suc (n - len)]) [3 ..< Suc (min 7 n)])"

definition windowStep :: "string list \<Rightarrow> string list \<Rightarrow> string list \<Rightarrow> best \<Rightarrow> nat \<times> nat \<Rightarrow> best" where
  "windowStep titleStems allTargetStems words b li =
     (case windowScore titleStems allTargetStems words (fst li) (snd li) of
        None \<Rightarrow> b
      | Some cand \<Rightarrow> better b cand)"

definition fallbackPositions :: "nat \<Rightarrow> (nat \<times> nat) list" where
  \<comment> \<open>\<open>for (len = min(4, n); len >= 2; len--) for (i = 0; i <= n - len; i++)\<close>\<close>
  "fallbackPositions n =
     concat (map (\<lambda>len. map (\<lambda>i. (len, i)) [0 ..< Suc (n - len)]) (rev [2 ..< Suc (min 4 n)]))"

definition fallbackStep :: "string \<Rightarrow> string list \<Rightarrow> best \<Rightarrow> nat \<times> nat \<Rightarrow> best" where
  "fallbackStep paraText titleWords b li =
     (let snippet = joinSp (take (fst li) (drop (snd li) titleWords));
          snippetLower = toLowerCase snippet
      in case indexOf snippetLower (toLowerCase paraText) of
           None \<Rightarrow> b
         | Some pos \<Rightarrow>
             better b (substring paraText pos (pos + length snippet), of_nat (fst li) * 12 + 10))"

definition titleWordsOf :: "string \<Rightarrow> string list" where
  \<comment> \<open>\<open>title.split(/\s+/).filter(w => w.length > 2)\<close>\<close>
  "titleWordsOf t = filter (\<lambda>w. length w > 2) (splitWs t)"

definition windowBest :: "string \<Rightarrow> SitePage \<Rightarrow> best" where
  \<comment> \<open>\<open>best\<close> as the window loops leave it\<close>
  "windowBest paraText pg =
     (let titleStems = significantTokens (title pg);
          keywordStems = concat (map significantTokens (keywords_p pg));
          words = splitWs paraText
      in foldl (windowStep titleStems (titleStems @ keywordStems) words) None
           (windowPositions (length words)))"

definition needsFallback :: "best \<Rightarrow> bool" where
  \<comment> \<open>\<open>!best || best.score < 15\<close>\<close>
  "needsFallback b = (case b of None \<Rightarrow> True | Some old \<Rightarrow> snd old < 15)"

definition findBestAnchor :: "string \<Rightarrow> SitePage \<Rightarrow> best" where
  "findBestAnchor paraText pg =
     (let titleStems = significantTokens (title pg);
          keywordStems = concat (map significantTokens (keywords_p pg))
      in if titleStems @ keywordStems = [] then None
         else if length (splitWs paraText) < 5 then None
         else
           (let b1 = windowBest paraText pg;
                titleWords = titleWordsOf (title pg);
                b2 = (if needsFallback b1
                      then foldl (fallbackStep paraText titleWords) b1
                             (fallbackPositions (length titleWords))
                      else b1)
            in case b2 of
                 None \<Rightarrow> None
               | Some r \<Rightarrow> if snd r \<ge> 10 then Some r else None))"

subsection \<open>The engine: candidate generation and greedy selection\<close>

record ScoredCandidate =
  paragraph_c :: ParagraphInfo
  page :: SitePage
  anchor_c :: string
  score :: rat

text \<open>
  The link type is declared outside the engine's file; these are the fields the engine
  writes and reads. A field that is missing and one that holds the empty string are both
  falsy to the source's \<open>||\<close> chains, so the empty string stands for both.
\<close>

record InternalLink =
  anchor :: string
  anchorText :: string
  targetUrl :: string
  url_l :: string
  text_l :: string
  context_l :: string
  priority :: rat
  relevanceScore :: rat

record Engine =
  pages :: "SitePage list"

definition newEngine :: "SitePage list option \<Rightarrow> Engine" where
  \<comment> \<open>the constructor: \<open>this.pages = pages || []\<close>\<close>
  "newEngine ps = \<lparr> pages = (case ps of None \<Rightarrow> [] | Some l \<Rightarrow> l) \<rparr>"

definition updateSitePages :: "Engine \<Rightarrow> SitePage list option \<Rightarrow> Engine" where
  "updateSitePages e ps = e \<lparr> pages := (case ps of None \<Rightarrow> [] | Some l \<Rightarrow> l) \<rparr>"

definition candidatesFor :: "SitePage list \<Rightarrow> ParagraphInfo \<Rightarrow> ScoredCandidate list" where
  \<comment> \<open>the inner loop over the catalog for one paragraph\<close>
  "candidatesFor ps para =
     concat (map (\<lambda>pg. case findBestAnchor (text_p para) pg of
                          None \<Rightarrow> []
                        | Some r \<Rightarrow> [\<lparr> paragraph_c = para, page = pg,
                                       anchor_c = fst r, score = snd r \<rparr>]) ps)"

definition collectCandidates :: "SitePage list \<Rightarrow> ParagraphInfo list \<Rightarrow> ScoredCandidate list" where
  "collectCandidates ps paras =
     concat (map (\<lambda>para. if hasLink para \<or> wordCount para < 12 then []
                          else candidatesFor ps para) paras)"

definition sortByScore :: "ScoredCandidate list \<Rightarrow> ScoredCandidate list" where
  \<comment> \<open>\<open>candidates.sort((a, b) => b.score - a.score)\<close>: descending and stable\<close>
  "sortByScore cs = sort_key (\<lambda>c. - score c) cs"

definition toLink :: "ScoredCandidate \<Rightarrow> InternalLink" where
  "toLink c =
     \<lparr> anchor = anchor_c c, anchorText = anchor_c c,
       targetUrl = url (page c), url_l = url (page c), text_l = anchor_c c,
       context_l = substring (text_p (paragraph_c c)) 0 120,
       priority = score c, relevanceScore = min 100 (score c) \<rparr>"

text \<open>
  The state of the selection loop. \<open>hosts\<close> is not a variable of the source: it records,
  for every link pushed to \<open>selected\<close>, the paragraph the link was found in, which the
  returned link itself does not carry.
\<close>

record SelectState =
  selected :: "InternalLink list"
  hosts :: "ParagraphInfo list"
  usedUrls :: "string set"
  usedParas :: "nat set"
  lastCumulativeWords :: nat

definition selectInit :: SelectState where
  "selectInit = \<lparr> selected = [], hosts = [], usedUrls = {}, usedParas = {},
                  lastCumulativeWords = 0 \<rparr>"

fun selectLoop :: "int \<Rightarrow> SelectState \<Rightarrow> ScoredCandidate list \<Rightarrow> SelectState" where
  "selectLoop limit st [] = st"
| "selectLoop limit st (c # cs) =
     (if int (length (selected st)) \<ge> limit then st
      else if url (page c) \<in> usedUrls st then selectLoop limit st cs
      else if index (paragraph_c c) \<in> usedParas st then selectLoop limit st cs
      else if lastCumulativeWords st > 0
              \<and> int (cumulativeWords (paragraph_c c)) - int (lastCumulativeWords st) < 250
           then selectLoop limit st cs
      else selectLoop limit
             \<lparr> selected = selected st @ [toLink c],
               hosts = hosts st @ [paragraph_c c],
               usedUrls = insert (url (page c)) (usedUrls st),
               usedParas = insert (index (paragraph_c c)) (usedParas st),
               lastCumulativeWords = cumulativeWords (paragraph_c c) \<rparr> cs)"

definition selectRun :: "Engine \<Rightarrow> string \<Rightarrow> int option \<Rightarrow> SelectState" where
  \<comment> \<open>the method up to its \<open>return\<close>; the early return leaves the empty state\<close>
  "selectRun e h maxLinks =
     (let limit = (case maxLinks of None \<Rightarrow> 10 | Some m \<Rightarrow> m)
      in if pages e = [] then selectInit
         else selectLoop limit selectInit
                (sortByScore (collectCandidates (pages e) (extractParagraphs h))))"

definition generateLinkOpportunities :: "Engine \<Rightarrow> string \<Rightarrow> int option \<Rightarrow> InternalLink list" where
  "generateLinkOpportunities e h maxLinks = selected (selectRun e h maxLinks)"

definition linkHosts :: "Engine \<Rightarrow> string \<Rightarrow> int option \<Rightarrow> ParagraphInfo list" where
  \<comment> \<open>the host paragraph of each returned link, in the order of the returned list\<close>
  "linkHosts e h maxLinks = hosts (selectRun e h maxLinks)"


subsection \<open>Paragraphs come out in document order\<close>

definition earlier :: "ParagraphInfo \<Rightarrow> ParagraphInfo \<Rightarrow> bool" where
  "earlier p q \<longleftrightarrow> index p < index q \<and> cumulativeWords p \<le> cumulativeWords q"

lemma extractFrom_ordered:
  "sorted_wrt earlier (extractFrom off idx cw s)
   \<and> (\<forall>p \<in> set (extractFrom off idx cw s).
         idx \<le> index p \<and> cw \<le> cumulativeWords p \<and> wordCount p \<le> cumulativeWords p)"
proof (induction off idx cw s rule: extractFrom.induct)
  case (1 off idx cw s)
  show ?case
  proof (cases "execP s")
    case None
    then show ?thesis by (subst extractFrom.simps, simp)+
  next
    case (Some kn)
    obtain k n where kn: "kn = (k, n)" by (cases kn)
    define wc where "wc = countWords (trim (stripTags (take n (drop k s))))"
    define rest where "rest = extractFrom (off + k + n) (Suc idx) (cw + wc) (drop (k + n) s)"
    define hd_p where "hd_p = \<lparr> html = take n (drop k s), text_p = trim (stripTags (take n (drop k s))),
        index = idx, wordCount = wc, cumulativeWords = cw + wc,
        hasLink = hasLinkMarkup (take n (drop k s)),
        startOffset = off + k, endOffset = off + k + n \<rparr>"
    have unfold: "extractFrom off idx cw s = hd_p # rest"
      using Some kn by (subst extractFrom.simps) (simp add: Let_def wc_def rest_def hd_p_def)
    have ih: "sorted_wrt earlier rest
       \<and> (\<forall>p \<in> set rest. Suc idx \<le> index p \<and> cw + wc \<le> cumulativeWords p
                          \<and> wordCount p \<le> cumulativeWords p)"
      using "1.IH" [OF Some kn [symmetric] refl refl refl] by (simp add: rest_def wc_def)
    have "\<forall>q \<in> set rest. earlier hd_p q"
      using ih by (auto simp: earlier_def hd_p_def)
    with ih show ?thesis
      unfolding unfold by (auto simp: hd_p_def)
  qed
qed

lemma sorted_wrt_trichotomy:
  "sorted_wrt R xs \<Longrightarrow> x \<in> set xs \<Longrightarrow> y \<in> set xs \<Longrightarrow> x = y \<or> R x y \<or> R y x"
  by (induction xs) auto

lemma paragraphs_order:
  assumes "p \<in> set (extractParagraphs h)" and "q \<in> set (extractParagraphs h)"
    and "cumulativeWords p < cumulativeWords q"
  shows "index p < index q"
proof -
  have "sorted_wrt earlier (extractParagraphs h)"
    using extractFrom_ordered [of 0 0 0 h] by (simp add: extractParagraphs_def)
  from sorted_wrt_trichotomy [OF this assms(1,2)] assms(3)
  show ?thesis by (auto simp: earlier_def)
qed

lemma paragraphs_index_unique:
  assumes "p \<in> set (extractParagraphs h)" and "q \<in> set (extractParagraphs h)"
    and "index p = index q"
  shows "p = q"
proof -
  have "sorted_wrt earlier (extractParagraphs h)"
    using extractFrom_ordered [of 0 0 0 h] by (simp add: extractParagraphs_def)
  from sorted_wrt_trichotomy [OF this assms(1,2)] assms(3)
  show ?thesis by (auto simp: earlier_def)
qed

lemma paragraphs_wordCount_le:
  "p \<in> set (extractParagraphs h) \<Longrightarrow> wordCount p \<le> cumulativeWords p"
  using extractFrom_ordered [of 0 0 0 h] by (simp add: extractParagraphs_def)


subsection \<open>Where candidates come from\<close>

lemma candidatesFor_paragraph: "c \<in> set (candidatesFor ps para) \<Longrightarrow> paragraph_c c = para"
  by (auto simp: candidatesFor_def split: option.splits)

lemma collectCandidates_paragraph:
  assumes "c \<in> set (collectCandidates ps paras)"
  shows "paragraph_c c \<in> set paras \<and> \<not> hasLink (paragraph_c c)
         \<and> 12 \<le> wordCount (paragraph_c c)"
proof -
  from assms obtain para where para: "para \<in> set paras"
    and c: "c \<in> set (if hasLink para \<or> wordCount para < 12 then [] else candidatesFor ps para)"
    by (auto simp: collectCandidates_def)
  from c have ok: "\<not> hasLink para" "12 \<le> wordCount para" and "c \<in> set (candidatesFor ps para)"
    by (auto split: if_splits)
  with candidatesFor_paragraph have "paragraph_c c = para" by blast
  with para ok show ?thesis by simp
qed

lemma sortByScore_set: "set (sortByScore cs) = set cs"
  by (simp add: sortByScore_def)

subsection \<open>The invariant of the selection loop\<close>

definition selectInv :: "SelectState \<Rightarrow> bool" where
  "selectInv st \<longleftrightarrow>
     map targetUrl (selected st) = map url_l (selected st)
     \<and> length (selected st) = length (hosts st)
     \<and> map context_l (selected st) = map (\<lambda>p. substring (text_p p) 0 120) (hosts st)
     \<and> usedUrls st = set (map targetUrl (selected st))
     \<and> usedParas st = set (map index (hosts st))
     \<and> distinct (map targetUrl (selected st))
     \<and> distinct (map index (hosts st))
     \<and> sorted_wrt (\<lambda>p q. cumulativeWords p + 250 \<le> cumulativeWords q) (hosts st)
     \<and> list_all (\<lambda>p. 0 < cumulativeWords p \<and> cumulativeWords p \<le> lastCumulativeWords st)
          (hosts st)"

lemma selectInv_init: "selectInv selectInit"
  by (simp add: selectInv_def selectInit_def)

lemma selectInv_push:
  assumes inv: "selectInv st"
    and new_url: "url (page c) \<notin> usedUrls st"
    and new_para: "index (paragraph_c c) \<notin> usedParas st"
    and spaced: "\<not> (lastCumulativeWords st > 0
        \<and> int (cumulativeWords (paragraph_c c)) - int (lastCumulativeWords st) < 250)"
    and pos: "0 < cumulativeWords (paragraph_c c)"
  shows "selectInv \<lparr> selected = selected st @ [toLink c],
               hosts = hosts st @ [paragraph_c c],
               usedUrls = insert (url (page c)) (usedUrls st),
               usedParas = insert (index (paragraph_c c)) (usedParas st),
               lastCumulativeWords = cumulativeWords (paragraph_c c) \<rparr>"
proof -
  have far: "\<forall>p \<in> set (hosts st). cumulativeWords p + 250 \<le> cumulativeWords (paragraph_c c)"
  proof
    fix p assume p: "p \<in> set (hosts st)"
    with inv have b: "0 < cumulativeWords p" "cumulativeWords p \<le> lastCumulativeWords st"
      by (auto simp: selectInv_def list_all_iff)
    then have "lastCumulativeWords st > 0" by simp
    with spaced have "int (cumulativeWords (paragraph_c c)) - int (lastCumulativeWords st) \<ge> 250"
      by simp
    with b show "cumulativeWords p + 250 \<le> cumulativeWords (paragraph_c c)" by simp
  qed
  then have below: "\<forall>p \<in> set (hosts st). cumulativeWords p \<le> cumulativeWords (paragraph_c c)"
    by auto
  from inv have pos_old: "\<forall>p \<in> set (hosts st). 0 < cumulativeWords p"
    by (auto simp: selectInv_def list_all_iff)
  from inv new_url new_para far below pos pos_old show ?thesis
    by (simp add: selectInv_def sorted_wrt_append list_all_iff toLink_def)
qed

lemma selectLoop_inv:
  "selectInv st \<Longrightarrow> list_all (\<lambda>c. 0 < cumulativeWords (paragraph_c c)) cs
   \<Longrightarrow> selectInv (selectLoop limit st cs)"
proof (induction cs arbitrary: st)
  case Nil
  then show ?case by simp
next
  case (Cons c cs)
  from Cons.prems have rest: "list_all (\<lambda>c. 0 < cumulativeWords (paragraph_c c)) cs"
    and pos: "0 < cumulativeWords (paragraph_c c)" by simp_all
  show ?case
  proof (cases "int (length (selected st)) \<ge> limit
               \<or> url (page c) \<in> usedUrls st
               \<or> index (paragraph_c c) \<in> usedParas st
               \<or> (lastCumulativeWords st > 0
                   \<and> int (cumulativeWords (paragraph_c c)) - int (lastCumulativeWords st) < 250)")
    case True
    then show ?thesis using Cons.IH [OF Cons.prems(1) rest] Cons.prems(1) by auto
  next
    case False
    then have "selectInv \<lparr> selected = selected st @ [toLink c],
               hosts = hosts st @ [paragraph_c c],
               usedUrls = insert (url (page c)) (usedUrls st),
               usedParas = insert (index (paragraph_c c)) (usedParas st),
               lastCumulativeWords = cumulativeWords (paragraph_c c) \<rparr>"
      using selectInv_push [OF Cons.prems(1) _ _ _ pos] by blast
    from Cons.IH [OF this rest] False show ?thesis by auto
  qed
qed

lemma selectLoop_hosts:
  "set (hosts (selectLoop limit st cs)) \<subseteq> set (hosts st) \<union> paragraph_c ` set cs"
proof (induction cs arbitrary: st)
  case Nil
  then show ?case by simp
next
  case (Cons c cs)
  let ?st' = "\<lparr> selected = selected st @ [toLink c],
               hosts = hosts st @ [paragraph_c c],
               usedUrls = insert (url (page c)) (usedUrls st),
               usedParas = insert (index (paragraph_c c)) (usedParas st),
               lastCumulativeWords = cumulativeWords (paragraph_c c) \<rparr>"
  have a: "set (hosts (selectLoop limit st cs)) \<subseteq> set (hosts st) \<union> paragraph_c ` set (c # cs)"
    using Cons.IH [of st] by auto
  have b: "set (hosts (selectLoop limit ?st' cs)) \<subseteq> set (hosts st) \<union> paragraph_c ` set (c # cs)"
    using Cons.IH [of ?st'] by auto
  show ?case using a b by (simp del: set_simps image_insert)
qed

lemma selectLoop_limit:
  "int (length (selected st)) \<le> max limit 0
   \<Longrightarrow> int (length (selected (selectLoop limit st cs))) \<le> max limit 0"
  by (induction cs arbitrary: st) auto

text \<open>What holds of every run of the method, whatever the document and the catalog.\<close>

lemma selectRun_inv: "selectInv (selectRun e h m)"
proof (cases "pages e = []")
  case True
  then show ?thesis by (simp add: selectRun_def selectInv_init)
next
  case False
  let ?cs = "sortByScore (collectCandidates (pages e) (extractParagraphs h))"
  have "list_all (\<lambda>c. 0 < cumulativeWords (paragraph_c c)) ?cs"
  proof (unfold list_all_iff, rule ballI)
    fix c assume "c \<in> set ?cs"
    then have c: "c \<in> set (collectCandidates (pages e) (extractParagraphs h))"
      by (simp add: sortByScore_set)
    from collectCandidates_paragraph [OF c] paragraphs_wordCount_le [of "paragraph_c c" h]
    show "0 < cumulativeWords (paragraph_c c)" by auto
  qed
  from selectLoop_inv [OF selectInv_init this] False show ?thesis
    by (simp add: selectRun_def)
qed

lemma selectRun_hosts:
  assumes "p \<in> set (hosts (selectRun e h m))"
  shows "p \<in> set (extractParagraphs h) \<and> \<not> hasLink p \<and> 12 \<le> wordCount p"
proof (cases "pages e = []")
  case True
  with assms show ?thesis by (simp add: selectRun_def selectInit_def)
next
  case False
  let ?cs = "sortByScore (collectCandidates (pages e) (extractParagraphs h))"
  from assms False have "p \<in> set (hosts (selectLoop (case m of None \<Rightarrow> 10 | Some k \<Rightarrow> k) selectInit ?cs))"
    by (simp add: selectRun_def)
  with selectLoop_hosts have "p \<in> set (hosts selectInit) \<union> paragraph_c ` set ?cs" by blast
  then obtain c where "c \<in> set (collectCandidates (pages e) (extractParagraphs h))"
    and "p = paragraph_c c"
    by (auto simp: selectInit_def sortByScore_set)
  with collectCandidates_paragraph show ?thesis by blast
qed


subsection \<open>A document with two link opportunities\<close>

text \<open>
  Two twelve-word paragraphs with a linked paragraph of 238 words between them, and a
  catalog of two pages, one for each: the run that the examples below evaluate.
\<close>

definition twoLinkDoc :: string where
  "twoLinkDoc = ''<p>a b c d e f g h i j red fox</p><p><a href=x>w</a> w w w w w w w w w w w w w w w w w w w w w w w w w w w w w w w w w w w w w w w w w w w w w w w w w w w w w w w w w w w w w w w w w w w w w w w w w w w w w w w w w w w w w w w w w w w w w w w w w w w w w w w w w w w w w w w w w w w w w w w w w w w w w w w w w w w w w w w w w w w w w w w w w w w w w w w w w w w w w w w w w w w w w w w w w w w w w w w w w w w w w w w w w w w w w w w w w w w w w w w w w w w w w w w w w w w w w w w w w w w w w w w w w w w w w w w w w w w w w</p><p>a b c d e f g h i j big cat</p>''"

definition twoPageEngine :: Engine where
  "twoPageEngine =
     newEngine (Some [\<lparr> url = ''/fox'', title = ''Red Fox'', keywords_p = [] \<rparr>,
                      \<lparr> url = ''/cat'', title = ''Big Cat'', keywords_p = [] \<rparr>])"

lemma twoLink_run:
  "map (\<lambda>p. (index p, cumulativeWords p)) (linkHosts twoPageEngine twoLinkDoc None)
     = [(0, 12), (2, 262)]"
  by code_simp

section \<open>Properties of the selection\<close>

text \<open>
  C1. Whatever the document, the catalog and the limit, no two links returned by
  \<open>generateLinkOpportunities\<close> point at the same target URL, and no two of them were
  found in the same paragraph: the target URLs of the returned list are pairwise
  distinct, and so are the indices of the host paragraphs, of which there is one for
  each returned link, the paragraph whose first 120 characters are the link's context.
\<close>

theorem selected_links_distinct:
  "distinct (map targetUrl (generateLinkOpportunities e h m))
   \<and> distinct (map index (linkHosts e h m))
   \<and> length (linkHosts e h m) = length (generateLinkOpportunities e h m)
   \<and> map context_l (generateLinkOpportunities e h m)
       = map (\<lambda>p. substring (text_p p) 0 120) (linkHosts e h m)"
  using selectRun_inv [of e h m]
  by (simp add: selectInv_def generateLinkOpportunities_def linkHosts_def)

text \<open>
  C2. Order the host paragraphs of the returned links by paragraph index. Then each
  host paragraph's cumulative word count exceeds that of the one before it by at
  least 250 (which says nothing when fewer than two links are returned).
\<close>

theorem consecutive_links_spaced:
  "Suc i < length (linkHosts e h m) \<Longrightarrow>
   cumulativeWords (sort_key index (linkHosts e h m) ! i) + 250
     \<le> cumulativeWords (sort_key index (linkHosts e h m) ! Suc i)"
proof -
  assume i: "Suc i < length (linkHosts e h m)"
  let ?hs = "linkHosts e h m"
  have sp: "sorted_wrt (\<lambda>p q. cumulativeWords p + 250 \<le> cumulativeWords q) ?hs"
    using selectRun_inv [of e h m] by (simp add: selectInv_def linkHosts_def)
  have mem: "\<And>p. p \<in> set ?hs \<Longrightarrow> p \<in> set (extractParagraphs h)"
    using selectRun_hosts [of _ e h m] by (simp add: linkHosts_def)
  have "sorted_wrt (\<lambda>p q. index p \<le> index q) ?hs"
  proof (rule sorted_wrt_mono_rel [OF _ sp])
    fix p q assume "p \<in> set ?hs" "q \<in> set ?hs" "cumulativeWords p + 250 \<le> cumulativeWords q"
    with mem paragraphs_order [of p h q] show "index p \<le> index q" by fastforce
  qed
  then have "sorted (map index ?hs)" by (simp add: sorted_map)
  then have same: "sort_key index ?hs = ?hs" by (rule sort_key_id_if_sorted)
  from sorted_wrt_nth_less [OF sp, of i "Suc i"] i show ?thesis by (simp add: same)
qed

theorem consecutive_links_spaced_witness:
  "Suc 0 < length (linkHosts twoPageEngine twoLinkDoc None)
   \<and> map cumulativeWords (sort_key index (linkHosts twoPageEngine twoLinkDoc None)) = [12, 262]
   \<and> cumulativeWords (sort_key index (linkHosts twoPageEngine twoLinkDoc None) ! 0) + 250
       \<le> cumulativeWords (sort_key index (linkHosts twoPageEngine twoLinkDoc None) ! Suc 0)"
proof -
  from twoLink_run
  obtain p q where pq: "linkHosts twoPageEngine twoLinkDoc None = [p, q]"
    and vals: "index p = 0" "cumulativeWords p = 12" "index q = 2" "cumulativeWords q = 262"
    by auto
  have len: "Suc 0 < length (linkHosts twoPageEngine twoLinkDoc None)" by (simp add: pq)
  from consecutive_links_spaced [OF len] pq vals show ?thesis by simp
qed

text \<open>
  C7. A paragraph of the document with fewer than 12 words is referenced by no
  candidate, whatever the catalog, and hosts no returned link, whatever the limit.
\<close>

theorem short_paragraph_never_candidate:
  assumes "p \<in> set (extractParagraphs h)" and "wordCount p < 12"
  shows "index p \<notin> (\<lambda>c. index (paragraph_c c)) ` set (collectCandidates ps (extractParagraphs h))
         \<and> index p \<notin> index ` set (linkHosts e h m)"
proof
  show "index p \<notin> (\<lambda>c. index (paragraph_c c)) ` set (collectCandidates ps (extractParagraphs h))"
  proof
    assume "index p \<in> (\<lambda>c. index (paragraph_c c)) ` set (collectCandidates ps (extractParagraphs h))"
    then obtain c where c: "c \<in> set (collectCandidates ps (extractParagraphs h))"
      and ix: "index p = index (paragraph_c c)" by auto
    from collectCandidates_paragraph [OF c]
    have q: "paragraph_c c \<in> set (extractParagraphs h)" "12 \<le> wordCount (paragraph_c c)"
      by simp_all
    from paragraphs_index_unique [OF assms(1) q(1) ix] q(2) assms(2) show False by simp
  qed
next
  show "index p \<notin> index ` set (linkHosts e h m)"
  proof
    assume "index p \<in> index ` set (linkHosts e h m)"
    then obtain q where q: "q \<in> set (hosts (selectRun e h m))" and ix: "index p = index q"
      by (auto simp: linkHosts_def)
    from selectRun_hosts [OF q]
    have q': "q \<in> set (extractParagraphs h)" "12 \<le> wordCount q" by simp_all
    from paragraphs_index_unique [OF assms(1) q'(1) ix] q'(2) assms(2) show False by simp
  qed
qed

theorem short_paragraph_never_candidate_witness:
  "extractParagraphs ''<p>Red fox jumps.</p>''
     = [\<lparr> html = ''<p>Red fox jumps.</p>'', text_p = ''Red fox jumps.'', index = 0,
          wordCount = 3, cumulativeWords = 3, hasLink = False, startOffset = 0,
          endOffset = 21 \<rparr>]
   \<and> 0 \<notin> (\<lambda>c. index (paragraph_c c))
            ` set (collectCandidates (pages twoPageEngine)
                     (extractParagraphs ''<p>Red fox jumps.</p>''))
   \<and> 0 \<notin> index ` set (linkHosts twoPageEngine ''<p>Red fox jumps.</p>'' None)"
proof -
  let ?p = "\<lparr> html = ''<p>Red fox jumps.</p>'', text_p = ''Red fox jumps.'', index = 0,
          wordCount = 3, cumulativeWords = 3, hasLink = False, startOffset = 0,
          endOffset = 21 \<rparr>"
  have ex: "extractParagraphs ''<p>Red fox jumps.</p>'' = [?p]" by code_simp
  then have mem: "?p \<in> set (extractParagraphs ''<p>Red fox jumps.</p>'')" by simp
  have short: "wordCount ?p < 12" by simp
  from short_paragraph_never_candidate [OF mem short, of "pages twoPageEngine" twoPageEngine None] ex
  show ?thesis by simp
qed

text \<open>
  C8. With an empty catalog the method returns the empty list for every document
  and every limit. The catalog is empty when the engine was built without pages or
  with an empty list, and after an update with no pages or with an empty list.
\<close>

theorem empty_catalog_no_links:
  "(pages e = [] \<longrightarrow> generateLinkOpportunities e h m = [])
   \<and> generateLinkOpportunities (newEngine None) h m = []
   \<and> generateLinkOpportunities (newEngine (Some [])) h m = []
   \<and> generateLinkOpportunities (updateSitePages e None) h m = []
   \<and> generateLinkOpportunities (updateSitePages e (Some [])) h m = []"
  by (simp add: generateLinkOpportunities_def selectRun_def selectInit_def newEngine_def
      updateSitePages_def)

theorem empty_catalog_no_links_witness:
  "pages (updateSitePages twoPageEngine None) = []
   \<and> generateLinkOpportunities (updateSitePages twoPageEngine None) twoLinkDoc (Some 5) = []"
proof -
  have "pages (updateSitePages twoPageEngine None) = []" by (simp add: updateSitePages_def)
  with empty_catalog_no_links [of "updateSitePages twoPageEngine None" twoLinkDoc "Some 5"]
  show ?thesis by blast
qed

text \<open>
  C9. The returned list is in document order: along the list, the indices of the host
  paragraphs and their cumulative word counts are strictly increasing.
\<close>

theorem links_in_document_order:
  "sorted_wrt (\<lambda>p q. index p < index q \<and> cumulativeWords p < cumulativeWords q)
     (linkHosts e h m)"
proof -
  let ?hs = "linkHosts e h m"
  have sp: "sorted_wrt (\<lambda>p q. cumulativeWords p + 250 \<le> cumulativeWords q) ?hs"
    using selectRun_inv [of e h m] by (simp add: selectInv_def linkHosts_def)
  have mem: "\<And>p. p \<in> set ?hs \<Longrightarrow> p \<in> set (extractParagraphs h)"
    using selectRun_hosts [of _ e h m] by (simp add: linkHosts_def)
  show ?thesis
  proof (rule sorted_wrt_mono_rel [OF _ sp])
    fix p q assume "p \<in> set ?hs" "q \<in> set ?hs" "cumulativeWords p + 250 \<le> cumulativeWords q"
    with mem paragraphs_order [of p h q]
    show "index p < index q \<and> cumulativeWords p < cumulativeWords q" by fastforce
  qed
qed

theorem links_in_document_order_witness:
  "map index (linkHosts twoPageEngine twoLinkDoc None) = [0, 2]
   \<and> sorted_wrt (\<lambda>p q. index p < index q \<and> cumulativeWords p < cumulativeWords q)
       (linkHosts twoPageEngine twoLinkDoc None)"
proof -
  from twoLink_run
  have "map index (linkHosts twoPageEngine twoLinkDoc None) = [0, 2]" by auto
  with links_in_document_order [of twoPageEngine twoLinkDoc None] show ?thesis by simp
qed


section \<open>Properties of the anchor generator\<close>

text \<open>
  What the specification calls a contiguous run of \<open>lo\<close> to \<open>hi\<close> words: the words
  \<open>i, \<dots>, i + len - 1\<close> of a word list, joined by single spaces.
\<close>

definition wordRuns :: "nat \<Rightarrow> nat \<Rightarrow> string list \<Rightarrow> string list" where
  "wordRuns lo hi ws =
     concat (map (\<lambda>len. map (\<lambda>i. joinSp (take len (drop i ws))) [0 ..< Suc (length ws - len)])
               [lo ..< Suc (min hi (length ws))])"

lemma better_cases: "better b c = Some r \<Longrightarrow> b = Some r \<or> c = r"
  by (auto simp: better_def split: option.splits if_splits)

lemma foldl_pick:
  assumes step: "\<And>b x. step b x = (case cand x of None \<Rightarrow> b | Some c \<Rightarrow> better b c)"
  shows "foldl step b xs = Some r \<Longrightarrow> b = Some r \<or> (\<exists>x \<in> set xs. cand x = Some r)"
proof (induction xs arbitrary: b)
  case Nil
  then show ?case by simp
next
  case (Cons x xs)
  from Cons.prems have "foldl step (step b x) xs = Some r" by simp
  from Cons.IH [OF this] show ?case
  proof
    assume sb: "step b x = Some r"
    show ?thesis
    proof (cases "cand x")
      case None
      with sb step [of b x] show ?thesis by simp
    next
      case (Some c)
      with sb step [of b x] have "better b c = Some r" by simp
      from better_cases [OF this] Some show ?thesis by auto
    qed
  next
    assume "\<exists>x \<in> set xs. cand x = Some r"
    then show ?thesis by auto
  qed
qed

lemma windowScore_anchor:
  "windowScore ts tgt ws len i = Some r \<Longrightarrow> fst r = joinSp (take len (drop i ws))"
  by (auto simp: windowScore_def Let_def split: if_splits)

lemma windowPositions_runs:
  "(len, i) \<in> set (windowPositions (length ws))
   \<Longrightarrow> joinSp (take len (drop i ws)) \<in> set (wordRuns 3 7 ws)"
  by (auto simp: windowPositions_def wordRuns_def)

lemma fallbackPositions_runs:
  "(len, i) \<in> set (fallbackPositions (length ws))
   \<Longrightarrow> joinSp (take len (drop i ws)) \<in> set (wordRuns 2 4 ws)"
  by (auto simp: fallbackPositions_def wordRuns_def)

lemma windowBest_run:
  assumes "windowBest para pg = Some r"
  shows "fst r \<in> set (wordRuns 3 7 (splitWs para))"
proof -
  let ?ts = "significantTokens (title pg)"
  let ?tgt = "?ts @ concat (map significantTokens (keywords_p pg))"
  let ?ws = "splitWs para"
  have step: "\<And>b x. windowStep ?ts ?tgt ?ws b x
      = (case windowScore ?ts ?tgt ?ws (fst x) (snd x) of None \<Rightarrow> b | Some c \<Rightarrow> better b c)"
    by (simp add: windowStep_def)
  from assms have "foldl (windowStep ?ts ?tgt ?ws) None (windowPositions (length ?ws)) = Some r"
    by (simp add: windowBest_def Let_def)
  from foldl_pick [of "windowStep ?ts ?tgt ?ws" "\<lambda>x. windowScore ?ts ?tgt ?ws (fst x) (snd x)", OF step this]
  obtain x where x: "x \<in> set (windowPositions (length ?ws))"
    and sc: "windowScore ?ts ?tgt ?ws (fst x) (snd x) = Some r" by auto
  from windowScore_anchor [OF sc] windowPositions_runs [of "fst x" "snd x" ?ws] x
  show ?thesis by simp
qed

lemma windowScore_ends:
  "windowScore ts tgt ws len i = Some r
   \<Longrightarrow> \<not> isStop (lettersOnly (ws ! i)) \<and> \<not> isStop (lettersOnly (ws ! (i + len - 1)))"
  by (auto simp: windowScore_def Let_def split: if_splits)

text \<open>
  The window path keeps the stop words off both ends of an anchor: what the window
  loops leave in \<open>best\<close> is a run whose first and last words, reduced to their letters,
  are no stop words.
\<close>

lemma windowBest_ends:
  assumes "windowBest para pg = Some r"
  shows "\<exists>len i. (len, i) \<in> set (windowPositions (length (splitWs para)))
           \<and> fst r = joinSp (take len (drop i (splitWs para)))
           \<and> \<not> isStop (lettersOnly (splitWs para ! i))
           \<and> \<not> isStop (lettersOnly (splitWs para ! (i + len - 1)))"
proof -
  let ?ts = "significantTokens (title pg)"
  let ?tgt = "?ts @ concat (map significantTokens (keywords_p pg))"
  let ?ws = "splitWs para"
  have step: "\<And>b x. windowStep ?ts ?tgt ?ws b x
      = (case windowScore ?ts ?tgt ?ws (fst x) (snd x) of None \<Rightarrow> b | Some c \<Rightarrow> better b c)"
    by (simp add: windowStep_def)
  from assms have "foldl (windowStep ?ts ?tgt ?ws) None (windowPositions (length ?ws)) = Some r"
    by (simp add: windowBest_def Let_def)
  from foldl_pick [of "windowStep ?ts ?tgt ?ws" "\<lambda>x. windowScore ?ts ?tgt ?ws (fst x) (snd x)", OF step this]
  obtain x where x: "x \<in> set (windowPositions (length ?ws))"
    and sc: "windowScore ?ts ?tgt ?ws (fst x) (snd x) = Some r" by auto
  from windowScore_anchor [OF sc] windowScore_ends [OF sc] x
  show ?thesis by (intro exI [of _ "fst x"] exI [of _ "snd x"]) simp
qed

lemma indexOf_found: "indexOf pat s = Some k \<Longrightarrow> take (length pat) (drop k s) = pat"
proof (induction s arbitrary: k)
  case Nil
  then show ?case by (simp split: if_splits)
next
  case (Cons c cs)
  have sw: "\<And>p t. startsWith p t \<Longrightarrow> take (length p) t = p"
  proof -
    fix p t show "startsWith p t \<Longrightarrow> take (length p) t = p"
      by (induction p t rule: startsWith.induct) auto
  qed
  show ?case
  proof (cases "startsWith pat (c # cs)")
    case True
    with Cons.prems sw [of pat "c # cs"] show ?thesis by simp
  next
    case False
    with Cons.prems obtain j where "indexOf pat cs = Some j" "k = Suc j" by auto
    with Cons.IH [of j] show ?thesis by simp
  qed
qed

definition isAscii :: "char \<Rightarrow> bool" where
  "isAscii c \<longleftrightarrow> (of_char c :: nat) < 128"

lemma isAscii_bits [code]: "isAscii (Char b0 b1 b2 b3 b4 b5 b6 b7) = (\<not> b7)"
  by (cases b0; cases b1; cases b2; cases b3; cases b4; cases b5; cases b6; cases b7;
      simp add: isAscii_def)

definition asciiText :: "string \<Rightarrow> bool" where
  "asciiText s \<longleftrightarrow> list_all isAscii s"

text \<open>
  What the title fallback yields: a stretch of the paragraph text that is no longer
  than two to four consecutive title words joined by single spaces, cut where the
  lower-cased words were found in the lower-cased text. Where paragraph and title are
  ASCII, lower-casing moves no character and the stretch reads like those title words,
  letter case apart.
\<close>

definition titleStretch :: "string \<Rightarrow> string \<Rightarrow> string \<Rightarrow> bool" where
  "titleStretch para t a \<longleftrightarrow>
     (\<exists>snippet \<in> set (wordRuns 2 4 (titleWordsOf t)).
        sublist a para \<and> length a \<le> length snippet
        \<and> (asciiText para \<and> asciiText t \<longrightarrow> toLowerCase a = toLowerCase snippet))"

lemma substring_sublist: "sublist (substring s a b) s"
proof -
  have "s = take a s @ take (b - a) (drop a s) @ drop (b - a) (drop a s)"
    by (metis append_take_drop_id)
  then show ?thesis unfolding substring_def sublist_def by blast
qed


definition stopwordsDoc :: string where
  "stopwordsDoc = ''<p>It is the deep learning of all that we do here and there too</p>''"

definition sourdoughText :: string where
  "sourdoughText = ''The complete guide to sourdough baking requires patience and the right flour''"

definition sourdoughPage :: SitePage where
  "sourdoughPage = \<lparr> url = ''/guides/sourdough'', title = ''Sourdough Baking Guide'', keywords_p = [] \<rparr>"

text \<open>
  C3, as stated, fails: the title fallback yields anchors of two words. In a paragraph
  where every window around the words of the title ``Deep Learning'' starts or ends on a
  stop word, the window loops find nothing and the fallback returns the two-word anchor
  \<open>deep learning\<close>, which is no run of 3 to 7 words of the paragraph.
\<close>

theorem anchor_three_to_seven_words_counterexample:
  "map text_p (extractParagraphs stopwordsDoc)
     = [''It is the deep learning of all that we do here and there too'']
   \<and> map anchor_c
       (collectCandidates [\<lparr> url = ''/dl'', title = ''Deep Learning'', keywords_p = [] \<rparr>]
          (extractParagraphs stopwordsDoc))
     = [''deep learning'']
   \<and> countWords ''deep learning'' = 2
   \<and> ''deep learning''
       \<notin> set (wordRuns 3 7 (splitWs ''It is the deep learning of all that we do here and there too''))"
  by code_simp

text \<open>
  C3, amended. The anchor of every candidate is either a contiguous run of 3 to 7 words
  of the paragraph text, in their original casing and joined by single spaces (the
  window path), or a contiguous stretch of the paragraph text that is no longer than a
  run of 2 to 4 title words of more than two characters each (the title fallback, which
  may yield fewer than three words); where the paragraph text and the title are ASCII,
  that stretch equals the run of title words, letter case apart.
\<close>

theorem anchor_shape:
  assumes "findBestAnchor para pg = Some (a, s)"
  shows "a \<in> set (wordRuns 3 7 (splitWs para)) \<or> titleStretch para (title pg) a"
proof -
  let ?tw = "titleWordsOf (title pg)"
  define b1 where "b1 = windowBest para pg"
  define b2 where "b2 = (if needsFallback b1
                      then foldl (fallbackStep para ?tw) b1 (fallbackPositions (length ?tw))
                      else b1)"
  from assms have b2: "b2 = Some (a, s)"
    by (auto simp: findBestAnchor_def Let_def b1_def b2_def split: if_splits option.splits)
  let ?cand = "\<lambda>li. (case indexOf (toLowerCase (joinSp (take (fst li) (drop (snd li) ?tw))))
                                (toLowerCase para) of
                         None \<Rightarrow> None
                       | Some pos \<Rightarrow> Some (substring para pos
                              (pos + length (joinSp (take (fst li) (drop (snd li) ?tw)))),
                            of_nat (fst li) * 12 + 10))"
  have step: "\<And>b x. fallbackStep para ?tw b x = (case ?cand x of None \<Rightarrow> b | Some c \<Rightarrow> better b c)"
    by (simp add: fallbackStep_def Let_def split: option.splits)
  have "b1 = Some (a, s) \<or> (\<exists>x \<in> set (fallbackPositions (length ?tw)). ?cand x = Some (a, s))"
  proof (cases "needsFallback b1")
    case True
    with b2 have "foldl (fallbackStep para ?tw) b1 (fallbackPositions (length ?tw)) = Some (a, s)"
      by (simp add: b2_def)
    from foldl_pick [of "fallbackStep para ?tw" ?cand, OF step this] show ?thesis .
  next
    case False
    with b2 show ?thesis by (simp add: b2_def)
  qed
  then show ?thesis
  proof
    assume "b1 = Some (a, s)"
    from windowBest_run [OF this [unfolded b1_def]] show ?thesis by simp
  next
    assume "\<exists>x \<in> set (fallbackPositions (length ?tw)). ?cand x = Some (a, s)"
    then obtain x where x: "x \<in> set (fallbackPositions (length ?tw))" and c: "?cand x = Some (a, s)"
      by blast
    let ?snip = "joinSp (take (fst x) (drop (snd x) ?tw))"
    from c obtain pos where pos: "indexOf (toLowerCase ?snip) (toLowerCase para) = Some pos"
      and a: "a = substring para pos (pos + length ?snip)"
      by (auto split: option.splits)
    from indexOf_found [OF pos]
    have "toLowerCase a = toLowerCase ?snip"
      by (simp add: a substring_def toLowerCase_def take_map drop_map)
    moreover have "sublist a para" unfolding a by (rule substring_sublist)
    moreover have "length a \<le> length ?snip" by (simp add: a substring_def)
    moreover from fallbackPositions_runs [of "fst x" "snd x" ?tw] x
    have "?snip \<in> set (wordRuns 2 4 ?tw)" by simp
    ultimately show ?thesis unfolding titleStretch_def by blast
  qed
qed


theorem anchor_shape_witness:
  "findBestAnchor sourdoughText sourdoughPage = Some (''guide to sourdough baking'', 87)
   \<and> ''guide to sourdough baking'' \<in> set (wordRuns 3 7 (splitWs sourdoughText))
   \<and> findBestAnchor ''it is deep learning too''
         \<lparr> url = ''/dl'', title = ''Deep Learning'', keywords_p = [] \<rparr>
       = Some (''deep learning'', 34)
   \<and> asciiText ''it is deep learning too'' \<and> asciiText ''Deep Learning''
   \<and> ''deep learning'' \<notin> set (wordRuns 3 7 (splitWs ''it is deep learning too''))
   \<and> titleStretch ''it is deep learning too'' ''Deep Learning'' ''deep learning''"
proof -
  let ?pg = "\<lparr> url = ''/dl'', title = ''Deep Learning'', keywords_p = [] \<rparr>"
  have run: "findBestAnchor sourdoughText sourdoughPage = Some (''guide to sourdough baking'', 87)"
    by code_simp
  have window: "''guide to sourdough baking'' \<in> set (wordRuns 3 7 (splitWs sourdoughText))"
    by code_simp
  have run2: "findBestAnchor ''it is deep learning too'' ?pg = Some (''deep learning'', 34)"
    by code_simp
  have ascii: "asciiText ''it is deep learning too'' \<and> asciiText ''Deep Learning''"
    by code_simp
  have no_run: "''deep learning'' \<notin> set (wordRuns 3 7 (splitWs ''it is deep learning too''))"
    by code_simp
  from anchor_shape [OF run2] no_run
  have "titleStretch ''it is deep learning too'' ''Deep Learning'' ''deep learning''" by simp
  with run window run2 ascii no_run show ?thesis by simp
qed

text \<open>
  C4. The title fallback does not look at stop words. For the title
  ``All About Deep Learning'' and a paragraph in which every window around those words
  starts or ends on a stop word, the method returns the anchor
  \<open>all about deep learning\<close>, whose first word is the stop word \<open>all\<close>.
\<close>

theorem fallback_anchor_starts_on_stop_word:
  "map anchor
     (generateLinkOpportunities
        (newEngine (Some [\<lparr> url = ''/deep-learning'', title = ''All About Deep Learning'',
                             keywords_p = [] \<rparr>]))
        ''<p>This is all about deep learning and what it can do for you</p>'' None)
     = [''all about deep learning'']
   \<and> splitWs ''all about deep learning'' = [''all'', ''about'', ''deep'', ''learning'']
   \<and> isStop ''all''"
  by code_simp


section \<open>The link injector\<close>

definition linkAnchor :: "InternalLink \<Rightarrow> string" where
  \<comment> \<open>\<open>link.anchor || link.anchorText || link.text || ''\<close>\<close>
  "linkAnchor l =
     (if anchor l \<noteq> [] then anchor l
      else if anchorText l \<noteq> [] then anchorText l
      else text_l l)"

definition linkUrl :: "InternalLink \<Rightarrow> string" where
  \<comment> \<open>\<open>link.targetUrl || link.url || ''\<close>\<close>
  "linkUrl l = (if targetUrl l \<noteq> [] then targetUrl l else url_l l)"

definition headIsWord :: "string \<Rightarrow> bool" where
  \<comment> \<open>is the next character a word character; the end of the text is not\<close>
  "headIsWord s = (case s of [] \<Rightarrow> False | c # cs \<Rightarrow> isWordChar c)"

text \<open>
  The source escapes every character of the anchor that means something to a regular
  expression and compiles, with the \<open>i\<close> flag,
  \<^verbatim>\<open>(<p[^>]*>)((?:(?!</p>)[\s\S])*?)\b(ANCHOR)\b((?:(?!</p>)[\s\S])*?</p>)\<close>
  so the anchor is matched character by character, letters without case. The next three
  functions are that expression: group 3 with its two \<open>\b\<close> and group 4 tried at one
  place; the lazy group 2, which moves on one character at a time and may not step on
  the start of a \<open></p>\<close>; and the whole expression tried at the head of a text.
\<close>

definition anchorHere :: "string \<Rightarrow> char \<Rightarrow> string \<Rightarrow> nat option" where
  \<comment> \<open>\<open>prev\<close> is the character before \<open>s\<close>; the result is how many characters group 4
      takes before its final \<open></p>\<close>\<close>
  "anchorHere anc prev s =
     (if startsWithCI anc s
         \<and> isWordChar prev \<noteq> headIsWord s
         \<and> headIsWord (rev (take (length anc) s)) \<noteq> headIsWord (drop (length anc) s)
      then indexOfCI ''</p>'' (drop (length anc) s)
      else None)"

fun scanAnchor :: "string \<Rightarrow> char \<Rightarrow> string \<Rightarrow> (nat \<times> nat) option" where
  \<comment> \<open>how many characters group 2 takes after the tag, and the result of \<open>anchorHere\<close>\<close>
  "scanAnchor anc prev [] = None"
| "scanAnchor anc prev (c # cs) =
     (case anchorHere anc prev (c # cs) of
        Some m \<Rightarrow> Some (0, m)
      | None \<Rightarrow>
          if startsWithCI ''</p>'' (c # cs) then None
          else map_option (\<lambda>(k, m). (Suc k, m)) (scanAnchor anc c cs))"

definition matchAnchorAt :: "string \<Rightarrow> string \<Rightarrow> (nat \<times> nat) option" where
  \<comment> \<open>the lengths of \<open>match[1] + match[2]\<close> and of \<open>match[4]\<close>\<close>
  "matchAnchorAt anc s =
     (if startsWithCI ''<p'' s then
        (case indexOf ''>'' (drop 2 s) of
           None \<Rightarrow> None
         | Some a \<Rightarrow>
             (case scanAnchor anc (CHR ''>'') (drop (2 + a + 1) s) of
                None \<Rightarrow> None
              | Some (k, m) \<Rightarrow> Some (2 + a + 1 + k, m + 4)))
      else None)"

fun execAnchor :: "string \<Rightarrow> string \<Rightarrow> (nat \<times> nat \<times> nat) option" where
  \<comment> \<open>\<open>anchorRe.exec(result)\<close>: \<open>match.index\<close> and the two lengths of the leftmost match\<close>
  "execAnchor anc [] = None"
| "execAnchor anc (c # cs) =
     (case matchAnchorAt anc (c # cs) of
        Some (bl, al) \<Rightarrow> Some (0, bl, al)
      | None \<Rightarrow> map_option (\<lambda>(i, bl, al). (Suc i, bl, al)) (execAnchor anc cs))"

definition linkOpen :: "string \<Rightarrow> string" where
  \<open>linkOpen u =
     ''<a href="'' @ u @
     ''" style="color: #059669; text-decoration: underline; text-decoration-color: rgba(5,150,105,0.3); text-underline-offset: 3px; font-weight: 600; transition: all 0.2s ease;">''\<close>

definition linked :: "string \<Rightarrow> nat \<Rightarrow> nat \<Rightarrow> string \<Rightarrow> string" where
  \<comment> \<open>the \<open>replacement\<close>: the matched paragraph with the anchor wrapped\<close>
  "linked fullParagraph bl n u =
     take bl fullParagraph @ linkOpen u @ take n (drop bl fullParagraph) @ ''</a>''
     @ drop (bl + n) fullParagraph"

definition injectOne :: "string \<Rightarrow> InternalLink \<Rightarrow> string" where
  \<comment> \<open>one turn of the loop over the links; \<open>continue\<close> leaves the document as it is\<close>
  "injectOne result l =
     (let anc = linkAnchor l; u = linkUrl l
      in if anc = [] \<or> u = [] \<or> length anc < 4 then result
         else
           (case execAnchor anc result of
              None \<Rightarrow> result
            | Some (i, bl, al) \<Rightarrow>
                (let fullParagraph = take (bl + length anc + al) (drop i result)
                 in if hasLinkMarkup fullParagraph then result
                    else take i result @ linked fullParagraph bl (length anc) u
                         @ drop (i + length fullParagraph) result)))"

definition injectContextualLinks :: "string \<Rightarrow> InternalLink list \<Rightarrow> string" where
  "injectContextualLinks h links = (if links = [] then h else foldl injectOne h links)"

definition mkLink :: "string \<Rightarrow> string \<Rightarrow> InternalLink" where
  \<comment> \<open>a link as \<open>generateLinkOpportunities\<close> fills it in, for the examples\<close>
  "mkLink a u =
     \<lparr> anchor = a, anchorText = a, targetUrl = u, url_l = u, text_l = a, context_l = [],
       priority = 50, relevanceScore = 50 \<rparr>"


definition twiceDoc :: string where
  \<open>twiceDoc = ''<p>Read our <a href="/ml">machine learning</a> primer.</p><p>Then machine learning appears again.</p>''\<close>

text \<open>The test \<open>/<a\s/i\<close> at the head of a text.\<close>

definition isLinkStart :: "string \<Rightarrow> bool" where
  "isLinkStart s =
     (case s of a # b # c # cs \<Rightarrow> a = CHR ''<'' \<and> eqIgnoreCase b CHR ''a'' \<and> isSpace c
      | _ \<Rightarrow> False)"

lemma hasLinkMarkup_Cons: "hasLinkMarkup (x # s) = (isLinkStart (x # s) \<or> hasLinkMarkup s)"
  by (cases s rule: hasLinkMarkup.cases) (auto simp: isLinkStart_def split: list.splits)

lemma hasLinkMarkup_drop: "isLinkStart (drop k s) \<Longrightarrow> hasLinkMarkup s"
proof (induction s arbitrary: k)
  case Nil
  then show ?case by (simp add: isLinkStart_def)
next
  case (Cons x s)
  show ?case
  proof (cases k)
    case 0
    with Cons.prems show ?thesis by (simp add: hasLinkMarkup_Cons)
  next
    case (Suc j)
    with Cons.prems Cons.IH [of j] show ?thesis by (simp add: hasLinkMarkup_Cons)
  qed
qed

lemma isLinkStart_linkOpen: "isLinkStart (linkOpen u @ s)"
  by (simp add: isLinkStart_def linkOpen_def eqIgnoreCase_def isSpace_def)

lemma hasLinkMarkup_linked: "bl \<le> length full \<Longrightarrow> hasLinkMarkup (linked full bl n u)"
proof -
  assume "bl \<le> length full"
  then have "drop bl (linked full bl n u)
      = linkOpen u @ take n (drop bl full) @ ''</a>'' @ drop (bl + n) full"
    by (simp add: linked_def)
  then have "isLinkStart (drop bl (linked full bl n u))"
    by (simp only: isLinkStart_linkOpen)
  then show ?thesis by (rule hasLinkMarkup_drop)
qed

lemma startsWithCI_length: "startsWithCI p t \<Longrightarrow> length p \<le> length t"
  by (induction p t rule: startsWithCI.induct) auto

lemma indexOfCI_found: "indexOfCI pat s = Some k \<Longrightarrow> startsWithCI pat (drop k s)"
proof (induction s arbitrary: k)
  case Nil
  then show ?case by (simp split: if_splits)
next
  case (Cons c cs)
  show ?case
  proof (cases "startsWithCI pat (c # cs)")
    case True
    with Cons.prems show ?thesis by simp
  next
    case False
    with Cons.prems obtain j where "indexOfCI pat cs = Some j" "k = Suc j" by auto
    with Cons.IH [of j] show ?thesis by simp
  qed
qed

lemma scanAnchor_bound:
  "scanAnchor anc prev s = Some (k, m) \<Longrightarrow> k + length anc + m + 4 \<le> length s"
proof (induction s arbitrary: prev k)
  case Nil
  then show ?case by simp
next
  case (Cons c cs)
  show ?case
  proof (cases "anchorHere anc prev (c # cs)")
    case (Some m')
    with Cons.prems have k: "k = 0" and m: "m' = m" by simp_all
    from Some have "indexOfCI ''</p>'' (drop (length anc) (c # cs)) = Some m'"
      by (simp add: anchorHere_def split: if_splits)
    from indexOfCI_bound [OF this] have "m' + 4 \<le> length (c # cs) - length anc" by simp
    moreover from Some have "startsWithCI anc (c # cs)" by (simp add: anchorHere_def split: if_splits)
    then have "length anc \<le> length (c # cs)" by (rule startsWithCI_length)
    ultimately show ?thesis using k m by simp
  next
    case None
    with Cons.prems obtain j where "scanAnchor anc c cs = Some (j, m)" "k = Suc j"
      by (auto split: if_splits)
    with Cons.IH [of c j] show ?thesis by simp
  qed
qed

lemma matchAnchorAt_bound:
  assumes "matchAnchorAt anc s = Some (bl, al)"
  shows "3 \<le> bl \<and> 4 \<le> al \<and> bl + length anc + al \<le> length s"
proof -
  from assms obtain a k m where a: "indexOf ''>'' (drop 2 s) = Some a"
    and sc: "scanAnchor anc (CHR ''>'') (drop (2 + a + 1) s) = Some (k, m)"
    and bl: "bl = 2 + a + 1 + k" and al: "al = m + 4"
    by (auto simp: matchAnchorAt_def split: if_splits option.splits)
  from scanAnchor_bound [OF sc] have "k + length anc + m + 4 \<le> length s - (2 + a + 1)" by simp
  moreover from indexOf_bound [OF a] have "a + 1 \<le> length s - 2" by simp
  ultimately show ?thesis using bl al by simp
qed

lemma execAnchor_bound:
  "execAnchor anc s = Some (i, bl, al)
   \<Longrightarrow> 3 \<le> bl \<and> 4 \<le> al \<and> i + bl + length anc + al \<le> length s"
proof (induction s arbitrary: i)
  case Nil
  then show ?case by simp
next
  case (Cons c cs)
  show ?case
  proof (cases "matchAnchorAt anc (c # cs)")
    case (Some r)
    with Cons.prems have "matchAnchorAt anc (c # cs) = Some (bl, al)" "i = 0"
      by (auto split: prod.splits)
    with matchAnchorAt_bound [of anc "c # cs" bl al] show ?thesis by simp
  next
    case None
    with Cons.prems obtain j where "execAnchor anc cs = Some (j, bl, al)" "i = Suc j" by auto
    with Cons.IH [of j] show ?thesis by simp
  qed
qed

lemma injectContextualLinks_foldl: "injectContextualLinks h ls = foldl injectOne h ls"
  by (simp add: injectContextualLinks_def)

lemma injectOne_changes:
  assumes "injectOne d l \<noteq> d"
  shows "\<exists>i bl al. execAnchor (linkAnchor l) d = Some (i, bl, al)
           \<and> \<not> hasLinkMarkup (take (bl + length (linkAnchor l) + al) (drop i d))
           \<and> injectOne d l
               = take i d
                 @ linked (take (bl + length (linkAnchor l) + al) (drop i d)) bl
                     (length (linkAnchor l)) (linkUrl l)
                 @ drop (i + (bl + length (linkAnchor l) + al)) d"
proof -
  let ?anc = "linkAnchor l"
  from assms obtain r where r: "execAnchor ?anc d = Some r"
    by (auto simp: injectOne_def Let_def split: if_splits option.splits)
  obtain i bl al where ibl: "r = (i, bl, al)" by (cases r)
  from execAnchor_bound [OF r [unfolded ibl]]
  have len: "length (take (bl + length ?anc + al) (drop i d)) = bl + length ?anc + al" by auto
  from assms r ibl have "\<not> hasLinkMarkup (take (bl + length ?anc + al) (drop i d))"
    by (auto simp: injectOne_def Let_def split: if_splits)
  moreover from this assms r ibl len
  have "injectOne d l = take i d
                 @ linked (take (bl + length ?anc + al) (drop i d)) bl (length ?anc) (linkUrl l)
                 @ drop (i + (bl + length ?anc + al)) d"
    by (auto simp: injectOne_def Let_def split: if_splits)
  ultimately show ?thesis using r ibl by blast
qed


text \<open>
  C5. The expression finds the leftmost paragraph that holds the anchor; when that
  paragraph has a link already, the loop moves on to the next link and never looks at
  a later paragraph. Here the anchor stands in two paragraphs, the first with a link
  and the second without: the expression matches in both, the second qualifies, and
  the document comes back unchanged.
\<close>

theorem link_dropped_when_first_match_is_linked:
  "injectContextualLinks twiceDoc [mkLink ''machine learning'' ''/guide''] = twiceDoc
   \<and> map (\<lambda>p. (hasLink p, matchAnchorAt ''machine learning'' (html p)))
         (extractParagraphs twiceDoc)
       = [(True, Some (26, 16)), (False, Some (8, 19))]"
  by code_simp

text \<open>
  C10, as stated, fails in each of its parts. A paragraph with a bare \<open><a>\<close> has anchor
  markup and still receives the link, inside the existing anchor element; so does a
  paragraph that lies inside an anchor element opened before it; and a link whose URL
  holds \<open></p><p>\<close> splits its paragraph for the expression, so that the same paragraph
  receives a second link in the same call.
\<close>

theorem inject_skips_linked_paragraphs_counterexample:
  \<open>injectContextualLinks ''<p>Read <a>deep learning</a> now.</p>''
       [mkLink ''deep learning'' ''/dl'']
     = ''<p>Read <a>'' @ linkOpen ''/dl'' @ ''deep learning</a></a> now.</p>''
   \<and> injectContextualLinks ''<a href="/x"><p>Deep learning is fun.</p></a>''
       [mkLink ''deep learning'' ''/dl'']
     = ''<a href="/x"><p>'' @ linkOpen ''/dl'' @ ''Deep learning</a> is fun.</p></a>''
   \<and> injectContextualLinks ''<p>hello world</p>''
       [mkLink ''hello'' ''</p><p>'', mkLink ''world'' ''/w'']
     = ''<p>'' @ linkOpen ''</p><p>'' @ ''hello</a> '' @ linkOpen ''/w'' @ ''world</a></p>''\<close>
  by code_simp

text \<open>
  What the expression of the injector matches, said without the matching functions. The
  text \<open>x\<close> begins at the start of the match; \<open>bl\<close> characters precede the matched
  anchor (groups 1 and 2) and \<open>al\<close> follow it (group 4).
\<close>

definition tagEnd :: "string \<Rightarrow> nat \<Rightarrow> bool" where
  \<comment> \<open>the opening tag ends at \<open>t\<close>, the first \<open>>\<close> behind \<open><p\<close>\<close>
  "tagEnd x t \<longleftrightarrow>
     2 \<le> t \<and> t < length x \<and> x ! t = CHR ''>'' \<and> (\<forall>j. 2 \<le> j \<and> j < t \<longrightarrow> x ! j \<noteq> CHR ''>'')"

definition closesAt :: "string \<Rightarrow> nat \<Rightarrow> bool" where
  \<comment> \<open>a \<open></p>\<close>, in either case, begins at \<open>j\<close>\<close>
  "closesAt x j \<longleftrightarrow> startsWithCI ''</p>'' (drop j x)"

definition wordEdge :: "string \<Rightarrow> nat \<Rightarrow> bool" where
  \<comment> \<open>\<open>\b\<close> in front of position \<open>j > 0\<close>: a word character on exactly one side\<close>
  "wordEdge x j \<longleftrightarrow> isWordChar (x ! (j - 1)) \<noteq> headIsWord (drop j x)"

definition anchorAt :: "string \<Rightarrow> string \<Rightarrow> nat \<Rightarrow> bool" where
  \<comment> \<open>the anchor stands at \<open>j\<close>, letters without case, between two word boundaries\<close>
  "anchorAt anc x j \<longleftrightarrow>
     startsWithCI anc (drop j x) \<and> wordEdge x j \<and> wordEdge x (j + length anc)"

definition anchorRegion :: "string \<Rightarrow> string \<Rightarrow> nat \<Rightarrow> nat \<Rightarrow> bool" where
  \<comment> \<open>\<open><p\<close>, the tag, then neither a \<open></p>\<close> nor the anchor up to \<open>bl\<close>, the anchor at \<open>bl\<close>,
      and the first \<open></p>\<close> behind the anchor ends after \<open>al\<close> more characters\<close>
  "anchorRegion anc x bl al \<longleftrightarrow>
     startsWithCI ''<p'' x
     \<and> (\<exists>t < bl. tagEnd x t
            \<and> (\<forall>j. t < j \<and> j < bl \<longrightarrow> \<not> closesAt x j \<and> \<not> anchorAt anc x j))
     \<and> anchorAt anc x bl
     \<and> 4 \<le> al
     \<and> closesAt x (bl + length anc + al - 4)
     \<and> (\<forall>j. bl + length anc \<le> j \<and> j < bl + length anc + al - 4 \<longrightarrow> \<not> closesAt x j)"

lemma startsWith_single: "startsWith [c] s \<longleftrightarrow> (\<exists>t. s = c # t)"
  by (cases s) auto

lemma indexOf_char:
  "indexOf [c] x = Some a \<Longrightarrow> a < length x \<and> x ! a = c \<and> (\<forall>j < a. x ! j \<noteq> c)"
proof (induction x arbitrary: a)
  case Nil
  then show ?case by simp
next
  case (Cons y ys)
  show ?case
  proof (cases "y = c")
    case True
    with Cons.prems show ?thesis by simp
  next
    case False
    with Cons.prems obtain b where b: "indexOf [c] ys = Some b" "a = Suc b" by auto
    from Cons.IH [OF b(1)] False b(2) show ?thesis by (auto simp: nth_Cons split: nat.splits)
  qed
qed

lemma indexOfCI_first:
  "indexOfCI pat s = Some m \<Longrightarrow> \<forall>j < m. \<not> startsWithCI pat (drop j s)"
proof (induction s arbitrary: m)
  case Nil
  then show ?case by (simp split: if_splits)
next
  case (Cons c cs)
  show ?case
  proof (cases "startsWithCI pat (c # cs)")
    case True
    with Cons.prems show ?thesis by simp
  next
    case False
    with Cons.prems obtain b where b: "indexOfCI pat cs = Some b" "m = Suc b" by auto
    from Cons.IH [OF b(1)] False b(2) show ?thesis
      by (auto simp: less_Suc_eq_0_disj)
  qed
qed

lemma indexOfCI_complete:
  "startsWithCI pat (drop q s) \<Longrightarrow> pat \<noteq> [] \<Longrightarrow> indexOfCI pat s \<noteq> None"
proof (induction s arbitrary: q)
  case Nil
  then show ?case by (cases pat) auto
next
  case (Cons c cs)
  show ?case
  proof (cases "startsWithCI pat (c # cs)")
    case True
    then show ?thesis by simp
  next
    case False
    with Cons.prems obtain q' where "q = Suc q'" by (cases q) auto
    with Cons.prems Cons.IH [of q'] False show ?thesis by simp
  qed
qed

text \<open>The character in front of position \<open>k\<close> of a text that follows \<open>prev\<close>.\<close>

definition charBefore :: "char \<Rightarrow> string \<Rightarrow> nat \<Rightarrow> char" where
  "charBefore prev s k = (if k = 0 then prev else s ! (k - 1))"

lemma scanAnchor_sound:
  "scanAnchor anc prev s = Some (k, m) \<Longrightarrow>
     anchorHere anc (charBefore prev s k) (drop k s) = Some m
     \<and> (\<forall>j < k. \<not> startsWithCI ''</p>'' (drop j s)
                \<and> anchorHere anc (charBefore prev s j) (drop j s) = None)"
proof (induction s arbitrary: prev k)
  case Nil
  then show ?case by simp
next
  case (Cons c cs)
  show ?case
  proof (cases "anchorHere anc prev (c # cs)")
    case (Some m')
    with Cons.prems show ?thesis by (simp add: charBefore_def)
  next
    case None
    with Cons.prems obtain j where j: "scanAnchor anc c cs = Some (j, m)" "k = Suc j"
      and open_: "\<not> startsWithCI ''</p>'' (c # cs)"
      by (auto split: if_splits)
    have cb: "\<And>i. charBefore prev (c # cs) (Suc i) = charBefore c cs i"
      by (simp add: charBefore_def nth_Cons split: nat.splits)
    from Cons.IH [OF j(1)] have ih1: "anchorHere anc (charBefore c cs j) (drop j cs) = Some m"
      and ih2: "\<forall>i < j. \<not> startsWithCI ''</p>'' (drop i cs)
                \<and> anchorHere anc (charBefore c cs i) (drop i cs) = None" by simp_all
    have "\<forall>i < k. \<not> startsWithCI ''</p>'' (drop i (c # cs))
                \<and> anchorHere anc (charBefore prev (c # cs) i) (drop i (c # cs)) = None"
    proof (intro allI impI)
      fix i assume "i < k"
      show "\<not> startsWithCI ''</p>'' (drop i (c # cs))
                \<and> anchorHere anc (charBefore prev (c # cs) i) (drop i (c # cs)) = None"
      proof (cases i)
        case 0
        with None open_ show ?thesis by (simp add: charBefore_def)
      next
        case (Suc i')
        with \<open>i < k\<close> j(2) have "i' < j" by simp
        with ih2 Suc cb show ?thesis by simp
      qed
    qed
    with ih1 j(2) cb show ?thesis by simp
  qed
qed


lemma headIsWord_rev_take:
  assumes "startsWithCI anc x" and "0 < length anc"
  shows "headIsWord (rev (take (length anc) x)) = isWordChar (x ! (length anc - 1))"
proof -
  from startsWithCI_length [OF assms(1)] have len: "length anc \<le> length x" .
  with assms(2) have ne: "take (length anc) x \<noteq> []" by auto
  then have "headIsWord (rev (take (length anc) x)) = isWordChar (hd (rev (take (length anc) x)))"
    by (cases "rev (take (length anc) x)") (simp_all add: headIsWord_def)
  also have "hd (rev (take (length anc) x)) = last (take (length anc) x)"
    using ne by (simp add: hd_rev)
  also have "last (take (length anc) x) = x ! (length anc - 1)"
    using len assms(2) ne by (simp add: last_conv_nth)
  finally show ?thesis .
qed

lemma startsWithCI_drop_bound:
  assumes "startsWithCI anc (drop j s)" and "0 < length anc"
  shows "j + length anc \<le> length s"
proof -
  from startsWithCI_length [OF assms(1)] have "length anc \<le> length s - j" by simp
  with assms(2) show ?thesis by arith
qed

lemma anchorHere_Some:
  assumes "anchorHere anc (s ! (j - 1)) (drop j s) = Some m" and "0 < length anc"
  shows "anchorAt anc s j \<and> indexOfCI ''</p>'' (drop (j + length anc) s) = Some m"
proof -
  let ?x = "drop j s"
  from assms(1) have sw: "startsWithCI anc ?x"
    and e1: "isWordChar (s ! (j - 1)) \<noteq> headIsWord ?x"
    and e2: "headIsWord (rev (take (length anc) ?x)) \<noteq> headIsWord (drop (length anc) ?x)"
    and ix: "indexOfCI ''</p>'' (drop (length anc) ?x) = Some m"
    by (auto simp: anchorHere_def split: if_splits)
  from startsWithCI_drop_bound [OF sw assms(2)] have jl: "j + length anc \<le> length s" .
  from headIsWord_rev_take [OF sw assms(2)] jl assms(2)
  have "headIsWord (rev (take (length anc) ?x)) = isWordChar (s ! (j + length anc - 1))"
    by (simp add: add.commute)
  with e2 have "wordEdge s (j + length anc)" by (simp add: wordEdge_def add.commute)
  with sw e1 ix show ?thesis by (simp add: anchorAt_def wordEdge_def add.commute)
qed

lemma anchorHere_None:
  assumes "anchorHere anc (s ! (j - 1)) (drop j s) = None" and "0 < length anc"
    and "indexOfCI ''</p>'' (drop (j + length anc) s) \<noteq> None"
  shows "\<not> anchorAt anc s j"
proof
  assume at: "anchorAt anc s j"
  let ?x = "drop j s"
  from at have sw: "startsWithCI anc ?x" by (simp add: anchorAt_def)
  from startsWithCI_drop_bound [OF sw assms(2)] have jl: "j + length anc \<le> length s" .
  from headIsWord_rev_take [OF sw assms(2)] jl assms(2)
  have "headIsWord (rev (take (length anc) ?x)) = isWordChar (s ! (j + length anc - 1))"
    by (simp add: add.commute)
  with at assms(3) have "anchorHere anc (s ! (j - 1)) ?x \<noteq> None"
    by (auto simp: anchorHere_def anchorAt_def wordEdge_def add.commute)
  with assms(1) show False by simp
qed

lemma matchAnchorAt_region:
  assumes m: "matchAnchorAt anc s = Some (bl, al)" and n: "0 < length anc"
  shows "anchorRegion anc s bl al"
proof -
  from m obtain a k mm where p: "startsWithCI ''<p'' s"
    and a: "indexOf ''>'' (drop 2 s) = Some a"
    and sc: "scanAnchor anc (CHR ''>'') (drop (2 + a + 1) s) = Some (k, mm)"
    and bl: "bl = 2 + a + 1 + k" and al: "al = mm + 4"
    by (auto simp: matchAnchorAt_def split: if_splits option.splits)
  let ?t = "2 + a"
  let ?body = "drop (?t + 1) s"
  from indexOf_char [OF a] have a1: "a < length s - 2" and a2: "drop 2 s ! a = CHR ''>''"
    and a3: "\<forall>j < a. drop 2 s ! j \<noteq> CHR ''>''" by simp_all
  from a1 have tl: "?t < length s" by simp
  have tag: "tagEnd s ?t"
  proof -
    from a2 tl have "s ! ?t = CHR ''>''" by simp
    moreover have "\<forall>j. 2 \<le> j \<and> j < ?t \<longrightarrow> s ! j \<noteq> CHR ''>''"
    proof (intro allI impI)
      fix j assume j: "2 \<le> j \<and> j < ?t"
      then have "j - 2 < a" by arith
      with a3 have "drop 2 s ! (j - 2) \<noteq> CHR ''>''" by simp
      moreover from j have "2 + (j - 2) = j" by arith
      ultimately show "s ! j \<noteq> CHR ''>''" using tl by (simp del: One_nat_def)
    qed
    ultimately show ?thesis using tl by (simp add: tagEnd_def)
  qed
  have cb: "\<And>i. charBefore (CHR ''>'') ?body i = s ! (?t + 1 + i - 1)"
  proof -
    fix i show "charBefore (CHR ''>'') ?body i = s ! (?t + 1 + i - 1)"
    proof (cases i)
      case 0
      with a2 tl show ?thesis by (simp add: charBefore_def)
    next
      case (Suc i')
      with tl show ?thesis by (simp add: charBefore_def)
    qed
  qed
  have dr: "\<And>i. drop i ?body = drop (?t + 1 + i) s" by (simp add: add.commute)
  from scanAnchor_sound [OF sc]
  have here: "anchorHere anc (s ! (?t + 1 + k - 1)) (drop (?t + 1 + k) s) = Some mm"
    and before: "\<forall>j < k. \<not> startsWithCI ''</p>'' (drop (?t + 1 + j) s)
        \<and> anchorHere anc (s ! (?t + 1 + j - 1)) (drop (?t + 1 + j) s) = None"
    unfolding cb dr by simp_all
  from anchorHere_Some [OF here n] bl
  have at: "anchorAt anc s bl" and ix: "indexOfCI ''</p>'' (drop (bl + length anc) s) = Some mm"
    by simp_all
  from indexOfCI_found [OF ix] have close: "closesAt s (bl + length anc + al - 4)"
    by (simp add: closesAt_def al add.commute add.left_commute)
  from indexOfCI_first [OF ix]
  have first: "\<forall>j. bl + length anc \<le> j \<and> j < bl + length anc + al - 4 \<longrightarrow> \<not> closesAt s j"
  proof (intro allI impI)
    fix j assume j: "bl + length anc \<le> j \<and> j < bl + length anc + al - 4"
    then have "j - (bl + length anc) < mm" using al by auto
    with indexOfCI_first [OF ix] have "\<not> startsWithCI ''</p>'' (drop (j - (bl + length anc)) (drop (bl + length anc) s))"
      by blast
    with j show "\<not> closesAt s j" by (auto simp: closesAt_def)
  qed
  have inner: "\<forall>j. ?t < j \<and> j < bl \<longrightarrow> \<not> closesAt s j \<and> \<not> anchorAt anc s j"
  proof (intro allI impI)
    fix j assume j: "?t < j \<and> j < bl"
    define i where "i = j - (?t + 1)"
    from j bl have i: "i < k" and ji: "j = ?t + 1 + i" by (auto simp: i_def)
    from before i have nc: "\<not> startsWithCI ''</p>'' (drop j s)"
      and nh: "anchorHere anc (s ! (j - 1)) (drop j s) = None" by (simp_all add: ji)
    have "startsWithCI ''</p>'' (drop (bl + length anc + mm - (j + length anc)) (drop (j + length anc) s))"
      using indexOfCI_found [OF ix] j by (simp add: add.commute add.left_commute)
    from indexOfCI_complete [OF this] have "indexOfCI ''</p>'' (drop (j + length anc) s) \<noteq> None"
      by simp
    from anchorHere_None [OF nh n this] nc show "\<not> closesAt s j \<and> \<not> anchorAt anc s j"
      by (simp add: closesAt_def)
  qed
  have "?t < bl" using bl by simp
  with tag inner have "\<exists>t < bl. tagEnd s t
            \<and> (\<forall>j. t < j \<and> j < bl \<longrightarrow> \<not> closesAt s j \<and> \<not> anchorAt anc s j)" by blast
  with p at close first al show ?thesis by (simp add: anchorRegion_def)
qed

lemma execAnchor_region:
  "execAnchor anc d = Some (i, bl, al) \<Longrightarrow> 0 < length anc \<Longrightarrow> anchorRegion anc (drop i d) bl al"
proof (induction d arbitrary: i)
  case Nil
  then show ?case by simp
next
  case (Cons c cs)
  show ?case
  proof (cases "matchAnchorAt anc (c # cs)")
    case (Some r)
    with Cons.prems have "matchAnchorAt anc (c # cs) = Some (bl, al)" "i = 0"
      by (auto split: prod.splits)
    with matchAnchorAt_region [of anc "c # cs" bl al] Cons.prems(2) show ?thesis by simp
  next
    case None
    with Cons.prems obtain j where "execAnchor anc cs = Some (j, bl, al)" "i = Suc j" by auto
    with Cons.IH [of j] Cons.prems(2) show ?thesis by simp
  qed
qed


subsection \<open>The region alone\<close>

lemma startsWithCI_take_iff: "length p \<le> n \<Longrightarrow> startsWithCI p (take n y) = startsWithCI p y"
proof (induction p y arbitrary: n rule: startsWithCI.induct)
  case (1 s)
  then show ?case by simp
next
  case (2 p ps)
  then show ?case by simp
next
  case (3 p ps c cs)
  then obtain n' where n': "n = Suc n'" by (cases n) auto
  with 3 show ?case by simp
qed

lemma startsWithCI_prefix: "startsWithCI p (take n y) \<Longrightarrow> startsWithCI p y"
proof (induction p y arbitrary: n rule: startsWithCI.induct)
  case (1 s)
  then show ?case by simp
next
  case (2 p ps)
  then show ?case by simp
next
  case (3 p ps c cs)
  then show ?case by (cases n) auto
qed

lemma headIsWord_take: "j < L \<Longrightarrow> headIsWord (drop j (take L s)) = headIsWord (drop j s)"
proof -
  assume "j < L"
  then obtain m where m: "L - j = Suc m" by (cases "L - j") auto
  have "drop j (take L s) = take (Suc m) (drop j s)" by (simp add: drop_take m)
  then show ?thesis by (cases "drop j s") (simp_all add: headIsWord_def)
qed

lemma wordEdge_take: "0 < j \<Longrightarrow> j < L \<Longrightarrow> wordEdge (take L s) j = wordEdge s j"
  by (simp add: wordEdge_def headIsWord_take)

lemma anchorAt_take:
  assumes "0 < j" and "j + length anc < L"
  shows "anchorAt anc (take L s) j = anchorAt anc s j"
proof -
  have "drop j (take L s) = take (L - j) (drop j s)" by (simp add: drop_take)
  moreover have "length anc \<le> L - j" using assms by simp
  ultimately have "startsWithCI anc (drop j (take L s)) = startsWithCI anc (drop j s)"
    by (simp add: startsWithCI_take_iff)
  moreover have "wordEdge (take L s) j = wordEdge s j" using assms by (simp add: wordEdge_take)
  moreover have "wordEdge (take L s) (j + length anc) = wordEdge s (j + length anc)"
    using assms by (simp add: wordEdge_take)
  ultimately show ?thesis by (simp add: anchorAt_def)
qed

lemma closesAt_take: "closesAt (take L s) j \<Longrightarrow> closesAt s j"
  unfolding closesAt_def by (simp add: drop_take) (rule startsWithCI_prefix)

lemma closesAt_take_iff: "j + 4 \<le> L \<Longrightarrow> closesAt (take L s) j = closesAt s j"
  unfolding closesAt_def by (simp add: drop_take startsWithCI_take_iff)

lemma anchorRegion_take:
  assumes r: "anchorRegion anc s bl al" and n: "0 < length anc"
    and L: "L = bl + length anc + al"
  shows "anchorRegion anc (take L s) bl al"
proof -
  from r obtain t where t: "t < bl" "tagEnd s t"
    and inner: "\<forall>j. t < j \<and> j < bl \<longrightarrow> \<not> closesAt s j \<and> \<not> anchorAt anc s j"
    and p: "startsWithCI ''<p'' s" and at: "anchorAt anc s bl" and al: "4 \<le> al"
    and close: "closesAt s (bl + length anc + al - 4)"
    and first: "\<forall>j. bl + length anc \<le> j \<and> j < bl + length anc + al - 4 \<longrightarrow> \<not> closesAt s j"
    by (auto simp: anchorRegion_def)
  from at have "startsWithCI anc (drop bl s)" by (simp add: anchorAt_def)
  from startsWithCI_drop_bound [OF this n] have bn: "bl + length anc \<le> length s" .
  from t have t2: "2 \<le> t" by (simp add: tagEnd_def)
  have bl0: "0 < bl" and blL: "bl + length anc < L" using t al L by simp_all
  have p': "startsWithCI ''<p'' (take L s)" using p t t2 L by (simp add: startsWithCI_take_iff)
  have tag': "tagEnd (take L s) t"
    using t t2 L bn al unfolding tagEnd_def by auto
  have inner': "\<forall>j. t < j \<and> j < bl \<longrightarrow> \<not> closesAt (take L s) j \<and> \<not> anchorAt anc (take L s) j"
  proof (intro allI impI)
    fix j assume j: "t < j \<and> j < bl"
    with inner have a: "\<not> closesAt s j" and b: "\<not> anchorAt anc s j" by simp_all
    from j blL have "0 < j" "j + length anc < L" by simp_all
    from anchorAt_take [OF this] b closesAt_take [of L s j] a
    show "\<not> closesAt (take L s) j \<and> \<not> anchorAt anc (take L s) j" by blast
  qed
  have at': "anchorAt anc (take L s) bl" using anchorAt_take [OF bl0 blL] at by simp
  have close': "closesAt (take L s) (bl + length anc + al - 4)"
    using close al L by (simp add: closesAt_take_iff)
  have first': "\<forall>j. bl + length anc \<le> j \<and> j < bl + length anc + al - 4
      \<longrightarrow> \<not> closesAt (take L s) j"
    using first closesAt_take [of L s] by blast
  from t(1) tag' inner' have "\<exists>t < bl. tagEnd (take L s) t
      \<and> (\<forall>j. t < j \<and> j < bl \<longrightarrow> \<not> closesAt (take L s) j \<and> \<not> anchorAt anc (take L s) j)"
    by blast
  with p' at' al close' first' show ?thesis by (simp add: anchorRegion_def)
qed


lemma injectOne_guards:
  "injectOne d l \<noteq> d \<Longrightarrow> 4 \<le> length (linkAnchor l) \<and> linkUrl l \<noteq> []"
  by (auto simp: injectOne_def Let_def split: if_splits)


text \<open>
  C10, amended. Whenever a link of the list changes the document, the link has an
  anchor of at least four characters and a URL, and the expression has matched a region
  of the document as it stood: the region begins with \<open><p\<close>, its tag ends at the first
  \<open>>\<close>, the matched text is the first place behind the tag where the anchor stands,
  letter case apart and between word boundaries, no \<open></p>\<close> begins between the tag and
  the matched text, and the region ends with the first \<open></p>\<close> behind the matched text.
  That region held no \<open><a\<close> followed by white space at that moment; the document changes
  in that region only, where the matched text is wrapped in the link element, and
  afterwards the region does hold such markup.
\<close>

theorem inject_into_matched_region:
  assumes "injectContextualLinks h (ls @ [l]) \<noteq> injectContextualLinks h ls"
  shows "\<exists>i bl al r.
           4 \<le> length (linkAnchor l) \<and> linkUrl l \<noteq> []
           \<and> r = take (bl + length (linkAnchor l) + al) (drop i (injectContextualLinks h ls))
           \<and> length r = bl + length (linkAnchor l) + al
           \<and> anchorRegion (linkAnchor l) r bl al
           \<and> \<not> hasLinkMarkup r
           \<and> injectContextualLinks h (ls @ [l])
               = take i (injectContextualLinks h ls)
                 @ linked r bl (length (linkAnchor l)) (linkUrl l)
                 @ drop (i + length r) (injectContextualLinks h ls)
           \<and> hasLinkMarkup (linked r bl (length (linkAnchor l)) (linkUrl l))"
proof -
  let ?d = "injectContextualLinks h ls"
  let ?anc = "linkAnchor l"
  have step: "injectContextualLinks h (ls @ [l]) = injectOne ?d l"
    by (simp add: injectContextualLinks_foldl)
  with assms have ch: "injectOne ?d l \<noteq> ?d" by simp
  from injectOne_guards [OF ch] have g: "4 \<le> length ?anc" "linkUrl l \<noteq> []" by simp_all
  from injectOne_changes [OF ch] obtain i bl al
    where ex: "execAnchor ?anc ?d = Some (i, bl, al)"
      and no: "\<not> hasLinkMarkup (take (bl + length ?anc + al) (drop i ?d))"
      and eq: "injectOne ?d l = take i ?d
                 @ linked (take (bl + length ?anc + al) (drop i ?d)) bl (length ?anc) (linkUrl l)
                 @ drop (i + (bl + length ?anc + al)) ?d"
    by blast
  define r where "r = take (bl + length ?anc + al) (drop i ?d)"
  from execAnchor_bound [OF ex] have len: "length r = bl + length ?anc + al"
    by (auto simp: r_def)
  from g(1) have n: "0 < length ?anc" by (simp del: length_greater_0_conv)
  have reg: "anchorRegion ?anc r bl al"
    unfolding r_def by (rule anchorRegion_take [OF execAnchor_region [OF ex n] n refl])
  from execAnchor_bound [OF ex] len have "bl \<le> length r" by simp
  from hasLinkMarkup_linked [OF this]
  have after: "hasLinkMarkup (linked r bl (length ?anc) (linkUrl l))" .
  have clean: "\<not> hasLinkMarkup r" unfolding r_def by (rule no)
  have "injectContextualLinks h (ls @ [l])
      = take i ?d @ linked r bl (length ?anc) (linkUrl l) @ drop (i + length r) ?d"
    unfolding step len unfolding r_def by (rule eq)
  with g len reg clean after r_def show ?thesis by blast
qed


theorem inject_into_matched_region_witness:
  \<open>injectContextualLinks ''<p>Some Deep Learning, now.</p>'' ([] @ [mkLink ''deep learning'' ''/dl''])
     = ''<p>Some '' @ linkOpen ''/dl'' @ ''Deep Learning</a>, now.</p>''
   \<and> injectContextualLinks ''<p>Some Deep Learning, now.</p>'' ([] @ [mkLink ''deep learning'' ''/dl''])
       \<noteq> injectContextualLinks ''<p>Some Deep Learning, now.</p>'' []
   \<and> (\<exists>i bl al r.
         r = take (bl + length (linkAnchor (mkLink ''deep learning'' ''/dl'')) + al)
               (drop i (injectContextualLinks ''<p>Some Deep Learning, now.</p>'' []))
         \<and> anchorRegion (linkAnchor (mkLink ''deep learning'' ''/dl'')) r bl al
         \<and> \<not> hasLinkMarkup r)
   \<and> anchorRegion ''deep learning'' ''<p>Some Deep Learning, now.</p>'' 8 10\<close>
proof -
  let ?h = "''<p>Some Deep Learning, now.</p>''"
  let ?l = "mkLink ''deep learning'' ''/dl''"
  have run: \<open>injectContextualLinks ?h ([] @ [?l])
      = ''<p>Some '' @ linkOpen ''/dl'' @ ''Deep Learning</a>, now.</p>''\<close>
    by code_simp
  have changed: "injectContextualLinks ?h ([] @ [?l]) \<noteq> injectContextualLinks ?h []"
    by code_simp
  have ex: "execAnchor ''deep learning'' ?h = Some (0, 8, 10)" by code_simp
  from execAnchor_region [OF ex] have "anchorRegion ''deep learning'' ?h 8 10" by simp
  with inject_into_matched_region [OF changed] run changed show ?thesis by blast
qed


section \<open>Injecting, then looking for opportunities again\<close>

text \<open>
  Bookkeeping that the source does not do: beside the document, the places in it of
  the \<open><a\<close> of every link inserted so far. A step that inserts a link at place \<open>i + bl\<close>
  records that place and moves the places behind it by the length of the inserted
  opening and closing tags.
\<close>

definition insertStep :: "string \<times> nat list \<Rightarrow> InternalLink \<Rightarrow> string \<times> nat list" where
  "insertStep st l =
     (if injectOne (fst st) l = fst st then st
      else
        (case execAnchor (linkAnchor l) (fst st) of
           None \<Rightarrow> (injectOne (fst st) l, snd st)
         | Some (i, bl, al) \<Rightarrow>
             (injectOne (fst st) l,
              (i + bl) # map (\<lambda>k. if k < i + bl then k
                                   else k + length (linkOpen (linkUrl l)) + 4) (snd st))))"

text \<open>Where, in the document that the call returns, the inserted links begin.\<close>

definition insertedAt :: "string \<Rightarrow> InternalLink list \<Rightarrow> nat list" where
  "insertedAt h links = snd (foldl insertStep (h, []) links)"

lemma insertStep_fst: "fst (insertStep st l) = injectOne (fst st) l"
  by (auto simp: insertStep_def split: option.splits)

lemma foldl_insertStep_fst: "fst (foldl insertStep st ls) = foldl injectOne (fst st) ls"
  by (induction ls arbitrary: st) (simp_all add: insertStep_fst)

lemma isLinkStart_take3: "isLinkStart s = isLinkStart (take 3 s)"
  by (auto simp: isLinkStart_def numeral_3_eq_3 split: list.splits)

lemma isLinkStart_cong: "take 3 s = take 3 t \<Longrightarrow> isLinkStart s = isLinkStart t"
  using isLinkStart_take3 [of s] isLinkStart_take3 [of t] by simp

lemma isLinkStart_length: "isLinkStart s \<Longrightarrow> 3 \<le> length s"
  by (auto simp: isLinkStart_def split: list.splits)

lemma isLinkStart_head: "isLinkStart s \<Longrightarrow> \<exists>t. s = CHR ''<'' # t"
  by (auto simp: isLinkStart_def split: list.splits)

text \<open>The document after an insertion, cut at the place of the insertion.\<close>

lemma injected_form:
  assumes ex: "execAnchor anc d = Some (i, bl, al)" and n: "n = length anc"
  shows "take i d @ linked (take (bl + n + al) (drop i d)) bl n u @ drop (i + (bl + n + al)) d
         = take (i + bl) d @ linkOpen u @ take n (drop (i + bl) d) @ ''</a>''
           @ drop (i + bl + n) d"
proof -
  let ?L = "bl + n + al"
  let ?r = "take ?L (drop i d)"
  have r1: "take bl ?r = take bl (drop i d)"
    by (simp add: min_def)
  have a: "take i d @ take bl ?r = take (i + bl) d"
    unfolding r1 by (simp only: take_add)
  have r2: "drop bl ?r = take (n + al) (drop (i + bl) d)"
    by (simp add: drop_take add.commute)
  have b: "take n (drop bl ?r) = take n (drop (i + bl) d)"
    unfolding r2 by (simp add: min_def)
  have r3: "drop (bl + n) ?r = take al (drop (i + bl + n) d)"
    by (simp add: drop_take add.commute add.left_commute)
  have r4: "drop (i + ?L) d = drop al (drop (i + bl + n) d)"
    by (simp add: add.commute add.left_commute)
  have c: "drop (bl + n) ?r @ drop (i + ?L) d = drop (i + bl + n) d"
    unfolding r3 r4 by (rule append_take_drop_id)
  have "take i d @ linked ?r bl n u @ drop (i + ?L) d
      = (take i d @ take bl ?r) @ linkOpen u @ take n (drop bl ?r) @ ''</a>''
        @ (drop (bl + n) ?r @ drop (i + ?L) d)"
    by (simp add: linked_def)
  also have "\<dots> = take (i + bl) d @ linkOpen u @ take n (drop (i + bl) d) @ ''</a>''
        @ drop (i + bl + n) d"
    unfolding a b c ..
  finally show ?thesis .
qed

text \<open>An insertion keeps every earlier \<open><a\<close> tag start intact and moves it as recorded.\<close>

lemma tag_start_survives:
  assumes ex: "execAnchor anc d = Some (i, bl, al)" and n: "n = length anc"
    and clean: "\<not> hasLinkMarkup (take (bl + n + al) (drop i d))"
    and d': "d' = take (i + bl) d @ linkOpen u @ take n (drop (i + bl) d) @ ''</a>''
           @ drop (i + bl + n) d"
    and old: "isLinkStart (drop k d)"
  shows "isLinkStart (drop (if k < i + bl then k else k + length (linkOpen u) + 4) d')"
proof -
  from execAnchor_bound [OF ex] n
  have bl: "3 \<le> bl" and al: "4 \<le> al" and len: "i + bl + n + al \<le> length d" by simp_all
  let ?q = "i + bl"
  from isLinkStart_length [OF old] have klen: "k + 3 \<le> length d" by simp
  have outside: "k + 3 \<le> ?q \<or> ?q + n \<le> k"
  proof (rule ccontr)
    assume "\<not> (k + 3 \<le> ?q \<or> ?q + n \<le> k)"
    then have lo: "i \<le> k" and hi: "k + 3 \<le> i + (bl + n + al)" using bl al by simp_all
    have "take 3 (drop (k - i) (take (bl + n + al) (drop i d))) = take 3 (drop k d)"
      using lo hi by (simp add: drop_take min_def)
    from isLinkStart_cong [OF this] old
    have "isLinkStart (drop (k - i) (take (bl + n + al) (drop i d)))" by simp
    from hasLinkMarkup_drop [OF this] clean show False by simp
  qed
  show ?thesis
  proof (cases "k < ?q")
    case True
    with outside have k3: "k + 3 \<le> ?q" by simp
    define X where "X = linkOpen u @ take n (drop ?q d) @ ''</a>'' @ drop (?q + n) d"
    have qlen: "length (take ?q d) = ?q" using len by simp
    have "drop k d' = drop k (take ?q d) @ X"
      using k3 qlen unfolding d' X_def by simp
    moreover have "drop k (take ?q d) = take (?q - k) (drop k d)"
      by (simp add: drop_take)
    ultimately have "take 3 (drop k d') = take 3 (take (?q - k) (drop k d))"
      using k3 klen len by simp
    also have "\<dots> = take 3 (drop k d)" using k3 by (simp add: min_def)
    finally have "take 3 (drop k d') = take 3 (drop k d)" .
    from isLinkStart_cong [OF this] old True show ?thesis by simp
  next
    case False
    with outside have kq: "?q + n \<le> k" by simp
    define P where "P = take ?q d @ linkOpen u @ take n (drop ?q d) @ ''</a>''"
    have Plen: "length P = ?q + length (linkOpen u) + n + 4"
      using len by (simp add: P_def)
    have split: "d' = P @ drop (?q + n) d" by (simp add: d' P_def)
    have "drop (k + length (linkOpen u) + 4) d'
        = drop (k + length (linkOpen u) + 4 - length P) (drop (?q + n) d)"
      unfolding split using kq Plen by simp
    also have "k + length (linkOpen u) + 4 - length P = k - (?q + n)"
      using kq Plen by simp
    also have "drop (k - (?q + n)) (drop (?q + n) d) = drop k d" using kq by simp
    finally show ?thesis using old False by simp
  qed
qed


definition tagsIntact :: "string \<times> nat list \<Rightarrow> bool" where
  "tagsIntact st \<longleftrightarrow> list_all (\<lambda>k. isLinkStart (drop k (fst st))) (snd st)"

lemma insertStep_intact:
  assumes "tagsIntact st"
  shows "tagsIntact (insertStep st l)"
proof (cases "injectOne (fst st) l = fst st")
  case True
  with assms show ?thesis by (simp add: insertStep_def)
next
  case False
  let ?d = "fst st"
  let ?anc = "linkAnchor l"
  let ?u = "linkUrl l"
  from injectOne_changes [OF False] obtain i bl al
    where ex: "execAnchor ?anc ?d = Some (i, bl, al)"
      and clean: "\<not> hasLinkMarkup (take (bl + length ?anc + al) (drop i ?d))"
      and eq: "injectOne ?d l = take i ?d
                 @ linked (take (bl + length ?anc + al) (drop i ?d)) bl (length ?anc) ?u
                 @ drop (i + (bl + length ?anc + al)) ?d"
    by blast
  from eq injected_form [OF ex refl, of ?u]
  have d': "injectOne ?d l = take (i + bl) ?d @ linkOpen ?u @ take (length ?anc) (drop (i + bl) ?d)
      @ ''</a>'' @ drop (i + bl + length ?anc) ?d" by simp
  from execAnchor_bound [OF ex] have "length (take (i + bl) ?d) = i + bl" by simp
  then have "drop (i + bl) (injectOne ?d l)
      = linkOpen ?u @ take (length ?anc) (drop (i + bl) ?d) @ ''</a>''
        @ drop (i + bl + length ?anc) ?d"
    unfolding d' by simp
  then have new: "isLinkStart (drop (i + bl) (injectOne ?d l))"
    by (simp only: isLinkStart_linkOpen)
  have old: "\<And>k. k \<in> set (snd st) \<Longrightarrow>
      isLinkStart (drop (if k < i + bl then k else k + length (linkOpen ?u) + 4) (injectOne ?d l))"
  proof -
    fix k assume "k \<in> set (snd st)"
    with assms have "isLinkStart (drop k ?d)" by (simp add: tagsIntact_def list_all_iff)
    from tag_start_survives [OF ex refl clean d' this] show
      "isLinkStart (drop (if k < i + bl then k else k + length (linkOpen ?u) + 4) (injectOne ?d l))" .
  qed
  have "insertStep st l = (injectOne ?d l,
      (i + bl) # map (\<lambda>k. if k < i + bl then k else k + length (linkOpen ?u) + 4) (snd st))"
    using False ex by (simp add: insertStep_def)
  moreover have "list_all (\<lambda>k. isLinkStart (drop k (injectOne ?d l)))
      (map (\<lambda>k. if k < i + bl then k else k + length (linkOpen ?u) + 4) (snd st))"
    using old by (simp only: list_all_iff set_map ball_simps) blast
  ultimately show ?thesis using new by (simp add: tagsIntact_def)
qed

lemma foldl_insertStep_intact: "tagsIntact st \<Longrightarrow> tagsIntact (foldl insertStep st ls)"
  by (induction ls arbitrary: st) (simp_all add: insertStep_intact)

lemma insertedAt_intact:
  "k \<in> set (insertedAt h links) \<Longrightarrow> isLinkStart (drop k (injectContextualLinks h links))"
proof -
  assume k: "k \<in> set (insertedAt h links)"
  have "tagsIntact (foldl insertStep (h, []) links)"
    by (rule foldl_insertStep_intact) (simp add: tagsIntact_def)
  with k show ?thesis
    by (simp add: tagsIntact_def list_all_iff insertedAt_def foldl_insertStep_fst
        injectContextualLinks_foldl)
qed

lemma insertStep_records:
  assumes "injectOne (fst st) l \<noteq> fst st"
  shows "length (snd (insertStep st l)) = Suc (length (snd st))"
proof -
  from injectOne_changes [OF assms] obtain i bl al
    where "execAnchor (linkAnchor l) (fst st) = Some (i, bl, al)" by blast
  with assms show ?thesis by (simp add: insertStep_def)
qed

lemma insertStep_length: "length (snd st) \<le> length (snd (insertStep st l))"
  using insertStep_records [of st l] by (cases "injectOne (fst st) l = fst st") (simp_all add: insertStep_def)

lemma foldl_insertStep_length: "length (snd st) \<le> length (snd (foldl insertStep st ls))"
proof (induction ls arbitrary: st)
  case Nil
  then show ?case by simp
next
  case (Cons l ls)
  from insertStep_length [of st l] Cons.IH [of "insertStep st l"] show ?case by simp
qed

text \<open>Nothing is inserted without being recorded.\<close>

lemma unrecorded_unchanged:
  "snd (foldl insertStep st ls) = snd st \<Longrightarrow> fst (foldl insertStep st ls) = fst st"
proof (induction ls arbitrary: st)
  case Nil
  then show ?case by simp
next
  case (Cons l ls)
  have same: "injectOne (fst st) l = fst st"
  proof (rule ccontr)
    assume "injectOne (fst st) l \<noteq> fst st"
    from insertStep_records [OF this] foldl_insertStep_length [of "insertStep st l" ls] Cons.prems
    show False by simp
  qed
  then have "insertStep st l = st" by (simp add: insertStep_def)
  with Cons show ?case by simp
qed

lemma nothing_recorded_nothing_inserted:
  "insertedAt h links = [] \<Longrightarrow> injectContextualLinks h links = h"
  using unrecorded_unchanged [of "(h, [])" links]
  by (simp add: insertedAt_def foldl_insertStep_fst injectContextualLinks_foldl)

subsection \<open>A paragraph is the stretch of the document between its offsets\<close>

lemma startsWithCI_take: "startsWithCI pat s \<Longrightarrow> map lowerChar (take (length pat) s) = map lowerChar pat"
  by (induction pat s rule: startsWithCI.induct) (auto simp: eqIgnoreCase_def)

lemma execP_match: "execP s = Some (k, n) \<Longrightarrow> matchP (drop k s) = Some n"
proof (induction s arbitrary: k)
  case Nil
  then show ?case by simp
next
  case (Cons c cs)
  show ?case
  proof (cases "matchP (c # cs)")
    case (Some m)
    with Cons.prems show ?thesis by simp
  next
    case None
    with Cons.prems obtain j where "execP cs = Some (j, n)" "k = Suc j" by auto
    with Cons.IH [of j] show ?thesis by simp
  qed
qed

lemma startsWithCI_closeP:
  assumes "startsWithCI ''</p>'' s"
  shows "\<exists>c1 c2 c3 c4 r. s = c1 # c2 # c3 # c4 # r
           \<and> eqIgnoreCase CHR ''p'' c3 \<and> eqIgnoreCase CHR ''>'' c4"
  using assms
  by (cases s; cases "tl s"; cases "tl (tl s)"; cases "tl (tl (tl s))"; auto)

lemma matchP_closing:
  assumes "matchP t = Some n" and "j < n" and "isLinkStart (drop j t)"
  shows "j + 3 \<le> n"
proof (rule ccontr)
  assume far: "\<not> j + 3 \<le> n"
  from assms(1) obtain a b where b: "indexOfCI ''</p>'' (drop (2 + a + 1) t) = Some b"
    and n: "n = 2 + a + 1 + b + 4"
    by (auto simp: matchP_def split: if_splits option.splits)
  have "n - 4 = 2 + a + 1 + b" using n by simp
  with indexOfCI_found [OF b] have "startsWithCI ''</p>'' (drop (n - 4) t)"
    by (simp add: add.commute)
  from startsWithCI_closeP [OF this]
  obtain c1 c2 c3 c4 r where cl: "drop (n - 4) t = c1 # c2 # c3 # c4 # r"
    and c3: "eqIgnoreCase CHR ''p'' c3" and c4: "eqIgnoreCase CHR ''>'' c4"
    by blast
  from far assms(2) have "j = n - 2 \<or> j = n - 1" by auto
  moreover have "drop (n - 2) t = drop 2 (drop (n - 4) t)" using n by simp
  moreover have "drop (n - 1) t = drop 3 (drop (n - 4) t)" using n by simp
  ultimately have "drop j t = c3 # c4 # r \<or> drop j t = c4 # r"
    using cl by (auto simp: numeral_3_eq_3 numeral_2_eq_2)
  with isLinkStart_head [OF assms(3)] have "c3 = CHR ''<'' \<or> c4 = CHR ''<''" by auto
  with c3 c4 show False
    by (auto simp: eqIgnoreCase_def lowerChar_bits isUpper_bits)
qed


definition spans :: "nat \<Rightarrow> string \<Rightarrow> ParagraphInfo \<Rightarrow> bool" where
  "spans off s p \<longleftrightarrow>
     off \<le> startOffset p \<and> startOffset p \<le> endOffset p \<and> endOffset p \<le> off + length s
     \<and> html p = take (endOffset p - startOffset p) (drop (startOffset p - off) s)
     \<and> hasLink p = hasLinkMarkup (html p)
     \<and> (\<forall>j. startOffset p \<le> j \<and> j < endOffset p \<and> isLinkStart (drop (j - off) s)
              \<longrightarrow> j + 3 \<le> endOffset p)"

lemma spans_shift:
  assumes "spans (off + m) (drop m s) p" and "m \<le> length s"
  shows "spans off s p"
proof -
  from assms(1) have lo: "off + m \<le> startOffset p" by (simp add: spans_def)
  then have d: "\<And>j. startOffset p \<le> j \<Longrightarrow> drop (j - (off + m)) (drop m s) = drop (j - off) s"
    by simp
  from d [of "startOffset p"] assms show ?thesis
    unfolding spans_def using lo d by (auto simp del: drop_drop)
qed

lemma extractFrom_spans: "list_all (spans off s) (extractFrom off idx cw s)"
proof (induction off idx cw s rule: extractFrom.induct)
  case (1 off idx cw s)
  show ?case
  proof (cases "execP s")
    case None
    then show ?thesis by (subst extractFrom.simps) simp
  next
    case (Some kn)
    obtain k n where kn: "kn = (k, n)" by (cases kn)
    define wc where "wc = countWords (trim (stripTags (take n (drop k s))))"
    define rest where "rest = extractFrom (off + k + n) (Suc idx) (cw + wc) (drop (k + n) s)"
    define hd_p where "hd_p = \<lparr> html = take n (drop k s), text_p = trim (stripTags (take n (drop k s))),
        index = idx, wordCount = wc, cumulativeWords = cw + wc,
        hasLink = hasLinkMarkup (take n (drop k s)),
        startOffset = off + k, endOffset = off + k + n \<rparr>"
    have unfold: "extractFrom off idx cw s = hd_p # rest"
      using Some kn by (subst extractFrom.simps) (simp add: Let_def wc_def rest_def hd_p_def)
    from Some kn have ex: "execP s = Some (k, n)" by simp
    from execP_bound [OF ex] have bound: "0 < n" "k + n \<le> length s" by simp_all
    have "list_all (spans (off + k + n) (drop (k + n) s)) rest"
      using "1.IH" [OF Some kn [symmetric] refl refl refl] by (simp add: rest_def wc_def)
    then have tail: "list_all (spans off s) rest"
      using spans_shift [of off "k + n" s] bound
      by (auto simp: list_all_iff add.assoc)
    have closing: "\<And>j. off + k \<le> j \<Longrightarrow> j < off + k + n \<Longrightarrow> isLinkStart (drop (j - off) s)
        \<Longrightarrow> j + 3 \<le> off + k + n"
    proof -
      fix j assume j: "off + k \<le> j" "j < off + k + n" and ls: "isLinkStart (drop (j - off) s)"
      from j have "drop (j - off) s = drop (j - off - k) (drop k s)" by simp
      with ls have a: "isLinkStart (drop (j - off - k) (drop k s))" by simp
      from j have b: "j - off - k < n" by simp
      from matchP_closing [OF execP_match [OF ex] b a] j show "j + 3 \<le> off + k + n" by simp
    qed
    have "spans off s hd_p"
      using bound closing by (simp add: spans_def hd_p_def)
    with tail show ?thesis unfolding unfold by simp
  qed
qed

lemma paragraph_holds_tag:
  assumes p: "p \<in> set (extractParagraphs r)"
    and k: "startOffset p \<le> k" "k < endOffset p"
    and tag: "isLinkStart (drop k r)"
  shows "hasLink p"
proof -
  from p extractFrom_spans [of 0 r 0 0] have sp: "spans 0 r p"
    by (simp add: extractParagraphs_def list_all_iff)
  with k tag have k3: "k + 3 \<le> endOffset p" by (simp add: spans_def)
  from sp have h: "html p = take (endOffset p - startOffset p) (drop (startOffset p) r)"
    by (simp add: spans_def)
  have "take 3 (drop (k - startOffset p) (html p)) = take 3 (drop k r)"
    unfolding h using k k3 by (simp add: drop_take min_def)
  from isLinkStart_cong [OF this] tag have "isLinkStart (drop (k - startOffset p) (html p))"
    by simp
  from hasLinkMarkup_drop [OF this] sp show ?thesis by (simp add: spans_def)
qed


definition oneLinkDoc :: string where
  "oneLinkDoc = ''<p>a b c d e f g h i j red fox</p>''"

definition foundLinks :: "InternalLink list" where
  "foundLinks = generateLinkOpportunities twoPageEngine oneLinkDoc None"

lemma foundLinks_value [code]:
  "foundLinks =
     [\<lparr> anchor = ''h i j red fox'', anchorText = ''h i j red fox'', targetUrl = ''/fox'',
        url_l = ''/fox'', text_l = ''h i j red fox'',
        context_l = ''a b c d e f g h i j red fox'', priority = 74, relevanceScore = 74 \<rparr>]"
  by code_simp

definition cutDoc :: string where
  \<open>cutDoc = ''<p>a b c d e f g h i j '' @ linkOpen ''</p><p>'' @ ''red fox</a></p>''\<close>

definition foxEngine :: Engine where
  "foxEngine = newEngine (Some [\<lparr> url = ''/fox'', title = ''Red Fox'', keywords_p = [] \<rparr>])"

definition hostedAnchors :: "SelectState \<Rightarrow> (string \<times> nat) list" where
  \<comment> \<open>the anchor of each returned link with the index of its host paragraph\<close>
  "hostedAnchors st = zip (map anchor (selected st)) (map index (hosts st))"

text \<open>
  C6, as stated, fails. A link whose URL holds \<open></p><p>\<close> cuts the paragraph it is put
  into: the paragraph of the result that holds the inserted \<open><a\<close> ends inside the tag,
  and the wrapped words lie in a new paragraph without \<open><a\<close>, which hosts a link when
  opportunities are looked for again (\<open>generateLinkOpportunities\<close> returns the links
  selected by \<open>selectRun\<close>).
\<close>

theorem relinking_after_inject_counterexample:
  \<open>injectContextualLinks oneLinkDoc [mkLink ''red fox'' ''</p><p>''] = cutDoc
   \<and> map hasLink (extractParagraphs cutDoc) = [True, False]
   \<and> hostedAnchors (selectRun foxEngine cutDoc None) = [(''0.2s ease;">red fox'', 1)]\<close>
  by code_simp

text \<open>
  C6, amended. Take the document that \<open>injectContextualLinks\<close> returns. At every place
  where the call inserted a link the document reads \<open><a\<close> and a white-space character; a
  paragraph of that document whose span holds such a place is flagged as having a link,
  and no link that a later \<open>generateLinkOpportunities\<close> returns for that document,
  whatever the catalog and the limit, is hosted by it. Nothing is said of a paragraph
  that holds the wrapped words but not the \<open><a\<close> in front of them.
\<close>

theorem linked_paragraph_not_relinked:
  assumes "k \<in> set (insertedAt h links)"
    and "p \<in> set (extractParagraphs (injectContextualLinks h links))"
    and "startOffset p \<le> k" and "k < endOffset p"
  shows "isLinkStart (drop k (injectContextualLinks h links))
         \<and> hasLink p
         \<and> index p \<notin> index ` set (linkHosts e (injectContextualLinks h links) m)"
proof -
  let ?r = "injectContextualLinks h links"
  from insertedAt_intact [OF assms(1)] have tag: "isLinkStart (drop k ?r)" .
  from paragraph_holds_tag [OF assms(2,3,4) tag] have linked: "hasLink p" .
  have "index p \<notin> index ` set (linkHosts e ?r m)"
  proof
    assume "index p \<in> index ` set (linkHosts e ?r m)"
    then obtain q where q: "q \<in> set (hosts (selectRun e ?r m))" and ix: "index p = index q"
      by (auto simp: linkHosts_def)
    from selectRun_hosts [OF q] have q': "q \<in> set (extractParagraphs ?r)" "\<not> hasLink q"
      by simp_all
    from paragraphs_index_unique [OF assms(2) q'(1) ix] q'(2) linked show False by simp
  qed
  with tag linked show ?thesis by simp
qed



theorem linked_paragraph_not_relinked_witness:
  "insertedAt oneLinkDoc foundLinks = [17]
   \<and> map (\<lambda>p. (index p, startOffset p, endOffset p))
         (extractParagraphs (injectContextualLinks oneLinkDoc foundLinks)) = [(0, 0, 222)]
   \<and> map index (linkHosts twoPageEngine oneLinkDoc None) = [0]
   \<and> 0 \<notin> index ` set (linkHosts twoPageEngine
                            (injectContextualLinks oneLinkDoc foundLinks) None)"
proof -
  let ?r = "injectContextualLinks oneLinkDoc foundLinks"
  have at: "insertedAt oneLinkDoc foundLinks = [17]" by code_simp
  have ps: "map (\<lambda>p. (index p, startOffset p, endOffset p)) (extractParagraphs ?r)
      = [(0, 0, 222)]" by code_simp
  have first_run: "map index (linkHosts twoPageEngine oneLinkDoc None) = [0]" by code_simp
  from ps obtain p where p: "extractParagraphs ?r = [p]"
    and vals: "index p = 0" "startOffset p = 0" "endOffset p = 222" by auto
  have k: "17 \<in> set (insertedAt oneLinkDoc foundLinks)" by (simp add: at)
  have mem: "p \<in> set (extractParagraphs ?r)" by (simp add: p)
  have lo: "startOffset p \<le> 17" and hi: "17 < endOffset p" by (simp_all add: vals)
  from linked_paragraph_not_relinked [OF k mem lo hi, of twoPageEngine None] vals
  have "0 \<notin> index ` set (linkHosts twoPageEngine ?r None)" by simp
  with at ps first_run show ?thesis by simp
qed

end
